theory Spec2Isabelle
  imports Main "HOL-Library.Sublist"
begin

section \<open>JavaScript containers\<close>

text \<open>
  A JavaScript \<^verbatim>\<open>Set<string>\<close> iterates in insertion order and holds no element twice:
  it is a list, and \<^verbatim>\<open>add\<close> appends only what is new.
\<close>

type_synonym js_set = "string list"

definition set_has :: "js_set \<Rightarrow> string \<Rightarrow> bool" where
  "set_has s x = (x \<in> set s)"

definition set_add :: "js_set \<Rightarrow> string \<Rightarrow> js_set" where
  "set_add s x = (if set_has s x then s else s @ [x])"

text \<open>
  A \<^verbatim>\<open>Map<string, V>\<close> iterates in the order in which its keys were first set:
  an association list. \<^verbatim>\<open>set\<close> on a key already present replaces the value in place.
\<close>

type_synonym 'v js_map = "(string \<times> 'v) list"

definition map_get :: "'v js_map \<Rightarrow> string \<Rightarrow> 'v option" where
  "map_get m k = map_of m k"

fun map_set :: "'v js_map \<Rightarrow> string \<Rightarrow> 'v \<Rightarrow> 'v js_map" where
  "map_set [] k v = [(k, v)]"
| "map_set ((k', v') # m) k v =
     (if k' = k then (k, v) # m else (k', v') # map_set m k v)"

definition map_keys :: "'v js_map \<Rightarrow> string list" where
  "map_keys m = map fst m"

text \<open>\<^verbatim>\<open>m.get(k)?.add(x)\<close>: nothing happens when the key is absent.\<close>

definition map_get_add :: "js_set js_map \<Rightarrow> string \<Rightarrow> string \<Rightarrow> js_set js_map" where
  "map_get_add m k x =
     (case map_get m k of None \<Rightarrow> m | Some s \<Rightarrow> map_set m k (set_add s x))"

section \<open>The impact analyzer\<close>

text \<open>
  \<^verbatim>\<open>DependencyNode\<close>. The selectors stand for the fields \<^verbatim>\<open>file\<close>,
  \<^verbatim>\<open>changeType\<close>, \<^verbatim>\<open>reason\<close> (optional) and \<^verbatim>\<open>children\<close>; they are prefixed
  because the functions below use the field names for their parameters.
  \<^verbatim>\<open>analyzeImpact\<close> always creates the list of children, so it is not optional here.
\<close>

datatype DependencyNode =
  DependencyNode (nodeFile: string) (nodeChangeType: string) (nodeReason: "string option")
    (nodeChildren: "DependencyNode list")

text \<open>
  \<^verbatim>\<open>childImpact.reason = reason\<close>.
\<close>

definition set_reason :: "DependencyNode \<Rightarrow> string option \<Rightarrow> DependencyNode" where
  "set_reason n r = DependencyNode (nodeFile n) (nodeChangeType n) r (nodeChildren n)"

text \<open>
  \<^verbatim>\<open>if (reason)\<close>: \<^verbatim>\<open>null\<close> and the empty string are falsy.
\<close>

definition truthy :: "string option \<Rightarrow> bool" where
  "truthy r = (case r of None \<Rightarrow> False | Some s \<Rightarrow> s \<noteq> [])"

text \<open>
  \<^verbatim>\<open>Array.prototype.join\<close> on an array of strings.
\<close>

fun js_join :: "string \<Rightarrow> string list \<Rightarrow> string" where
  "js_join sep [] = []"
| "js_join sep [x] = x"
| "js_join sep (x # y # ys) = x @ sep @ js_join sep (y # ys)"

text \<open>
  \<^verbatim>\<open>determineImpactReason\<close>. The context object is destructured on entry; its fields
  are the arguments \<open>changeType\<close>, \<open>modifiedExports\<close> and \<open>exports\<close>. The change kind is a
  string at run time.
\<close>

definition determineImpactReason ::
  "string \<Rightarrow> string \<Rightarrow> string \<Rightarrow> string list \<Rightarrow> js_set js_map \<Rightarrow> string option" where
  "determineImpactReason changedFile dependentFile changeType modifiedExports exports =
     (if changeType = ''delete'' then Some ''File was deleted''
      else if changeType = ''add'' then Some ''New file was added''
      else if changeType = ''modify'' \<and> length modifiedExports > 0 \<and>
              (let fileExports = map_get exports changedFile
               in list_ex (\<lambda>exp. case fileExports of None \<Rightarrow> False
                                  | Some s \<Rightarrow> set_has s exp) modifiedExports)
        then Some (''Modified exports: '' @ js_join '', '' modifiedExports)
      else Some ''File was modified'')"

text \<open>
  \<^verbatim>\<open>analyzeImpact\<close>, with the loop over \<^verbatim>\<open>dependencies.entries()\<close> as \<open>scanEntries\<close>.
  The set \<^verbatim>\<open>visited\<close> is shared by all calls and mutated in place: it is passed in and
  returned. The recursion is nested (the loop continues with the set the recursive call
  returns), so termination needs that a call never shrinks the set.
\<close>

function analyzeImpact ::
    "string \<Rightarrow> js_set js_map \<Rightarrow> js_set js_map \<Rightarrow> string \<Rightarrow> string list \<Rightarrow> js_set
      \<Rightarrow> DependencyNode \<times> js_set"
  and scanEntries ::
    "string \<Rightarrow> js_set js_map \<Rightarrow> js_set js_map \<Rightarrow> string \<Rightarrow> string list
      \<Rightarrow> js_set js_map \<Rightarrow> js_set \<Rightarrow> DependencyNode list \<times> js_set"
where
  "analyzeImpact changedFile dependencies exports changeType modifiedExports visited =
     (case scanEntries changedFile dependencies exports changeType modifiedExports
             dependencies visited of
        (cs, visited') \<Rightarrow> (DependencyNode changedFile changeType None cs, visited'))"
| "scanEntries changedFile dependencies exports changeType modifiedExports [] visited =
     ([], visited)"
| "scanEntries changedFile dependencies exports changeType modifiedExports
       ((file, deps) # rest) visited =
     (if set_has deps changedFile \<and> \<not> set_has visited file then
        (let visited1 = set_add visited file;
             reason = determineImpactReason changedFile file changeType modifiedExports exports
         in if truthy reason then
              (case analyzeImpact file dependencies exports ''affected'' modifiedExports
                      visited1 of
                 (childImpact, visited2) \<Rightarrow>
                   (case scanEntries changedFile dependencies exports changeType
                           modifiedExports rest visited2 of
                      (cs, visited3) \<Rightarrow> (set_reason childImpact reason # cs, visited3)))
            else scanEntries changedFile dependencies exports changeType modifiedExports
                   rest visited1)
      else scanEntries changedFile dependencies exports changeType modifiedExports
             rest visited)"
  by pat_completeness auto

lemma set_set_add: "set (set_add s x) = insert x (set s)"
  by (auto simp: set_add_def set_has_def)

lemma visited_grows_partial:
  "analyzeImpact_scanEntries_dom (Inl (cf, ds, ex, ct, me, v)) \<Longrightarrow>
     set v \<subseteq> set (snd (analyzeImpact cf ds ex ct me v))"
  "analyzeImpact_scanEntries_dom (Inr (cf, ds, ex, ct, me, es, v)) \<Longrightarrow>
     set v \<subseteq> set (snd (scanEntries cf ds ex ct me es v))"
proof (induction cf ds ex ct me v and cf ds ex ct me es v
        rule: analyzeImpact_scanEntries.pinduct)
  case (1 cf ds ex ct me v)
  then show ?case
    by (auto simp add: analyzeImpact.psimps split: prod.splits)
next
  case (2 cf ds ex ct me v)
  then show ?case by (simp add: scanEntries.psimps)
next
  case (3 cf ds ex ct me f deps rest v)
  note dom = 3(1)
  show ?case
  proof (cases "set_has deps cf \<and> \<not> set_has v f")
    case False
    then show ?thesis using 3(5)[OF False] dom by (auto simp add: scanEntries.psimps)
  next
    case True
    define v1 where "v1 = set_add v f"
    define r where "r = determineImpactReason cf f ct me ex"
    have v1: "set v \<subseteq> set v1" by (auto simp: v1_def set_set_add)
    show ?thesis
    proof (cases "truthy r")
      case False
      then have "set v1 \<subseteq> set (snd (scanEntries cf ds ex ct me rest v1))"
        using 3(4)[OF True v1_def r_def] by simp
      then show ?thesis
        using True False v1 dom by (simp add: scanEntries.psimps Let_def v1_def r_def)
    next
      case tr: True
      obtain c v2 where c: "analyzeImpact f ds ex ''affected'' me v1 = (c, v2)"
        by (cases "analyzeImpact f ds ex ''affected'' me v1")
      have a: "set v1 \<subseteq> set v2"
        using 3(2)[OF True v1_def r_def tr] c by simp
      have b: "set v2 \<subseteq> set (snd (scanEntries cf ds ex ct me rest v2))"
        using 3(3)[OF True v1_def r_def tr c[symmetric]] .
      have "snd (scanEntries cf ds ex ct me ((f, deps) # rest) v)
          = snd (scanEntries cf ds ex ct me rest v2)"
        using True tr c dom
        by (simp add: scanEntries.psimps Let_def v1_def[symmetric] r_def[symmetric]
            split: prod.splits)
      then show ?thesis
        using v1 a b by auto
    qed
  qed
qed

text \<open>
  The measure: the number of graph keys (and of entries still to scan) that are not yet
  visited, then the number of entries still to scan.
\<close>

lemma analyzeImpact_total: "All analyzeImpact_scanEntries_dom"
  apply (relation "inv_image (less_than <*lex*> less_than)
    (\<lambda>x. case x of
        Inl (cf, ds, ex, ct, me, v) \<Rightarrow> (card (fst ` set ds - set v), Suc (length ds))
      | Inr (cf, ds, ex, ct, me, es, v) \<Rightarrow>
          (card ((fst ` set ds \<union> fst ` set es) - set v), length es))")
  subgoal by (intro wf_inv_image wf_lex_prod wf_less_than)
  subgoal by simp
  subgoal for cf ds ex ct me f deps rest v v1 r
  proof -
    assume a: "set_has deps cf \<and> \<not> set_has v f" "v1 = set_add v f"
    have "fst ` set ds - set v1 \<subset> (fst ` set ds \<union> fst ` set ((f, deps) # rest)) - set v"
      using a by (auto simp: set_set_add set_has_def)
    then have "card (fst ` set ds - set v1)
        < card ((fst ` set ds \<union> fst ` set ((f, deps) # rest)) - set v)"
      by (intro psubset_card_mono) auto
    then show ?thesis by simp
  qed
  subgoal for cf ds ex ct me f deps rest v v1 r c v2
  proof -
    assume a: "v1 = set_add v f" "(c, v2) = analyzeImpact f ds ex ''affected'' me v1"
      "analyzeImpact_scanEntries_dom (Inl (f, ds, ex, ''affected'', me, v1))"
    have "set v1 \<subseteq> set v2"
      using visited_grows_partial(1)[OF a(3)] a(2) by (metis snd_conv)
    then have "(fst ` set ds \<union> fst ` set rest) - set v2
        \<subseteq> (fst ` set ds \<union> fst ` set ((f, deps) # rest)) - set v"
      using a by (auto simp: set_set_add)
    then have "card ((fst ` set ds \<union> fst ` set rest) - set v2)
        \<le> card ((fst ` set ds \<union> fst ` set ((f, deps) # rest)) - set v)"
      by (intro card_mono) auto
    then show ?thesis by auto
  qed
  subgoal for cf ds ex ct me f deps rest v v1 r
  proof -
    assume a: "v1 = set_add v f"
    have "(fst ` set ds \<union> fst ` set rest) - set v1
        \<subseteq> (fst ` set ds \<union> fst ` set ((f, deps) # rest)) - set v"
      using a by (auto simp: set_set_add)
    then have "card ((fst ` set ds \<union> fst ` set rest) - set v1)
        \<le> card ((fst ` set ds \<union> fst ` set ((f, deps) # rest)) - set v)"
      by (intro card_mono) auto
    then show ?thesis by auto
  qed
  subgoal for cf ds ex ct me f deps rest v
  proof -
    have "(fst ` set ds \<union> fst ` set rest) - set v
        \<subseteq> (fst ` set ds \<union> fst ` set ((f, deps) # rest)) - set v"
      by auto
    then have "card ((fst ` set ds \<union> fst ` set rest) - set v)
        \<le> card ((fst ` set ds \<union> fst ` set ((f, deps) # rest)) - set v)"
      by (intro card_mono) auto
    then show ?thesis by auto
  qed
  done

termination analyzeImpact
  by (rule analyzeImpact_total)

text \<open>
  All nodes of a tree in preorder, and the nodes below the root.
\<close>

fun nodes :: "DependencyNode \<Rightarrow> DependencyNode list" where
  "nodes (DependencyNode f c r cs) = DependencyNode f c r cs # concat (map nodes cs)"

definition descendants :: "DependencyNode \<Rightarrow> DependencyNode list" where
  "descendants n = concat (map nodes (nodeChildren n))"

section \<open>The platform: parsed modules, file system, paths\<close>

text \<open>
  What the Babel parser and traversal hand to the visitors of \<^verbatim>\<open>buildDependencyTree\<close>:
  the import and export declarations of a module, in source order. A variable declaration
  has at least one declarator; the identifier of a declarator is absent when it binds a
  pattern.
\<close>

datatype Declaration =
    VariableDeclaration "string option" "string option list"
  | OtherDeclaration "string option"

datatype ast_node =
    ImportDeclaration string
  | ExportNamedDeclaration "Declaration option"
  | ExportDefaultDeclaration
  | OtherNode

text \<open>
  A path names a directory or a regular file. The content of a regular file is kept as
  the outcome of \<^verbatim>\<open>fs.readFile\<close> followed by \<^verbatim>\<open>parser.parse\<close>: \<open>None\<close> when either
  throws (unreadable or malformed), otherwise the nodes the traversal visits.
\<close>

datatype fs_entry = Directory | RegularFile "ast_node list option"

type_synonym file_system = "(string \<times> fs_entry) list"

text \<open>
  \<^verbatim>\<open>fs.stat(p)\<close> followed by \<^verbatim>\<open>stats.isFile()\<close>, inside \<^verbatim>\<open>try { } catch {}\<close>: a
  missing path and a directory both fall through to the next candidate.
\<close>

definition stat_isFile :: "file_system \<Rightarrow> string \<Rightarrow> bool" where
  "stat_isFile fs p = (case map_of fs p of Some (RegularFile c) \<Rightarrow> True | _ \<Rightarrow> False)"

definition readAndParse :: "file_system \<Rightarrow> string \<Rightarrow> ast_node list option" where
  "readAndParse fs p = (case map_of fs p of Some (RegularFile c) \<Rightarrow> c | _ \<Rightarrow> None)"

text \<open>
  Node's \<^verbatim>\<open>process.cwd\<close> and \<^verbatim>\<open>path\<close> module are not part of the repository: they are
  parameters of the model.
\<close>

record platform =
  cwd :: string
  path_resolve :: "string list \<Rightarrow> string"
  path_dirname :: "string \<Rightarrow> string"
  path_join :: "string list \<Rightarrow> string"

section \<open>The import resolver\<close>

definition startsWith :: "string \<Rightarrow> string \<Rightarrow> bool" where
  "startsWith s p = (take (length p) s = p)"

definition extensions :: "string list" where
  "extensions = [''.ts'', ''.tsx'', ''.js'', ''.jsx'']"

text \<open>
  The two \<^verbatim>\<open>for (const ext of extensions)\<close> loops of \<^verbatim>\<open>resolveImportPath\<close>.
\<close>

fun probeExtensions :: "file_system \<Rightarrow> string \<Rightarrow> string list \<Rightarrow> string option" where
  "probeExtensions fs resolvedPath [] = None"
| "probeExtensions fs resolvedPath (ext # exts) =
     (let pathWithExt = resolvedPath @ ext
      in if stat_isFile fs pathWithExt then Some pathWithExt
         else probeExtensions fs resolvedPath exts)"

fun probeIndex :: "platform \<Rightarrow> file_system \<Rightarrow> string \<Rightarrow> string list \<Rightarrow> string option" where
  "probeIndex env fs resolvedPath [] = None"
| "probeIndex env fs resolvedPath (ext # exts) =
     (let indexPath = path_join env [resolvedPath, ''index'' @ ext]
      in if stat_isFile fs indexPath then Some indexPath
         else probeIndex env fs resolvedPath exts)"

definition resolveImportPath ::
  "platform \<Rightarrow> file_system \<Rightarrow> string \<Rightarrow> string \<Rightarrow> string option" where
  "resolveImportPath env fs currentFile importPath =
     (if \<not> startsWith importPath ''.'' \<and> \<not> startsWith importPath ''@/'' then None
      else
        let resolvedPath =
              (if startsWith importPath ''@/''
               then path_resolve env [cwd env, ''src'', drop 2 importPath]
               else path_resolve env [path_dirname env currentFile, importPath])
        in if stat_isFile fs resolvedPath then Some resolvedPath
           else (case probeExtensions fs resolvedPath extensions of
                   Some pathWithExt \<Rightarrow> Some pathWithExt
                 | None \<Rightarrow> probeIndex env fs resolvedPath extensions))"

text \<open>
  The resolver as the specification words it: no candidate for a bare specifier;
  otherwise the first candidate, in the fixed order, that is a regular file.
\<close>

definition rewrite_specifier :: "platform \<Rightarrow> string \<Rightarrow> string \<Rightarrow> string" where
  "rewrite_specifier env currentFile rawSpecifier =
     (if startsWith rawSpecifier ''@/''
      then path_resolve env [cwd env, ''src'', drop 2 rawSpecifier]
      else path_resolve env [path_dirname env currentFile, rawSpecifier])"

definition candidates :: "platform \<Rightarrow> string \<Rightarrow> string list" where
  "candidates env p =
     [p] @ map (\<lambda>ext. p @ ext) extensions
         @ map (\<lambda>ext. path_join env [p, ''index'' @ ext]) extensions"

definition is_bare :: "string \<Rightarrow> bool" where
  "is_bare rawSpecifier =
     (\<not> startsWith rawSpecifier ''@/'' \<and> \<not> startsWith rawSpecifier ''.'')"

definition resolve_spec ::
  "platform \<Rightarrow> file_system \<Rightarrow> string \<Rightarrow> string \<Rightarrow> string option" where
  "resolve_spec env fs currentFile rawSpecifier =
     (if is_bare rawSpecifier then None
      else find (stat_isFile fs) (candidates env (rewrite_specifier env currentFile rawSpecifier)))"

section \<open>The graph builder\<close>

text \<open>
  The three containers \<^verbatim>\<open>buildDependencyTree\<close> mutates: the two maps and the set of
  processed files.
\<close>

record build_state =
  st_dependencies :: "js_set js_map"
  st_exports :: "js_set js_map"
  st_processedFiles :: js_set

text \<open>
  The visitors of \<^verbatim>\<open>traverse\<close>: an import declaration is pushed on \<^verbatim>\<open>pendingImports\<close>;
  a named export with a declaration adds the name of its first declarator (a variable
  declaration) or of its identifier, when that name is truthy; a default export adds the
  name \<open>default\<close>.
\<close>

fun exportName :: "Declaration \<Rightarrow> string option" where
  "exportName (VariableDeclaration first others) = first"
| "exportName (OtherDeclaration name) = name"

fun visit :: "string \<Rightarrow> ast_node \<Rightarrow> string list \<times> js_set js_map
    \<Rightarrow> string list \<times> js_set js_map" where
  "visit filePath (ImportDeclaration importSource) (pendingImports, exports) =
     (pendingImports @ [importSource], exports)"
| "visit filePath (ExportNamedDeclaration None) (pendingImports, exports) =
     (pendingImports, exports)"
| "visit filePath (ExportNamedDeclaration (Some declaration)) (pendingImports, exports) =
     (case exportName declaration of
        None \<Rightarrow> (pendingImports, exports)
      | Some name \<Rightarrow>
          if name \<noteq> [] then (pendingImports, map_get_add exports filePath name)
          else (pendingImports, exports))"
| "visit filePath ExportDefaultDeclaration (pendingImports, exports) =
     (pendingImports, map_get_add exports filePath ''default'')"
| "visit filePath OtherNode (pendingImports, exports) = (pendingImports, exports)"

definition traverse :: "string \<Rightarrow> ast_node list \<Rightarrow> string list \<times> js_set js_map
    \<Rightarrow> string list \<times> js_set js_map" where
  "traverse filePath ast s = fold (visit filePath) ast s"

text \<open>
  \<^verbatim>\<open>buildDependencyTree\<close>, with the loop over \<^verbatim>\<open>pendingImports\<close> as \<open>processImports\<close>.
  Everything the \<^verbatim>\<open>try\<close> block can throw comes from reading and parsing, before either
  map is touched; the \<^verbatim>\<open>catch\<close> only logs.
\<close>

function buildDependencyTree ::
    "platform \<Rightarrow> file_system \<Rightarrow> string \<Rightarrow> build_state \<Rightarrow> build_state"
  and processImports ::
    "platform \<Rightarrow> file_system \<Rightarrow> string \<Rightarrow> string list \<Rightarrow> build_state \<Rightarrow> build_state"
where
  "buildDependencyTree env fs filePath st =
     (if set_has (st_processedFiles st) filePath then st
      else
        let st1 = st\<lparr>st_processedFiles := set_add (st_processedFiles st) filePath\<rparr>
        in (case readAndParse fs filePath of
              None \<Rightarrow> st1
            | Some ast \<Rightarrow>
                (case traverse filePath ast
                        ([], map_set (st_exports st1) filePath []) of
                   (pendingImports, exports') \<Rightarrow>
                     processImports env fs filePath pendingImports
                       (st1\<lparr>st_dependencies := map_set (st_dependencies st1) filePath [],
                            st_exports := exports'\<rparr>))))"
| "processImports env fs filePath [] st = st"
| "processImports env fs filePath (importSource # rest) st =
     (case resolveImportPath env fs filePath importSource of
        None \<Rightarrow> processImports env fs filePath rest st
      | Some importPath \<Rightarrow>
          if importPath = [] then processImports env fs filePath rest st
          else
            let st1 = st\<lparr>st_dependencies :=
                          map_get_add (st_dependencies st) filePath importPath\<rparr>
            in if \<not> set_has (st_processedFiles st1) importPath
               then processImports env fs filePath rest
                      (buildDependencyTree env fs importPath st1)
               else processImports env fs filePath rest st1)"
  by pat_completeness auto

lemma finite_regular_files: "finite {p. stat_isFile fs p}"
proof (rule finite_subset)
  show "{p. stat_isFile fs p} \<subseteq> fst ` set fs"
    by (auto simp add: stat_isFile_def split: option.splits dest: map_of_SomeD intro: rev_image_eqI)
qed simp

lemma readAndParse_isFile: "readAndParse fs p = Some ast \<Longrightarrow> stat_isFile fs p"
  by (auto simp add: readAndParse_def stat_isFile_def split: option.splits fs_entry.splits)

lemma processed_grows_partial:
  "buildDependencyTree_processImports_dom (Inl (env, fs, f, st)) \<Longrightarrow>
     set (st_processedFiles st) \<subseteq> set (st_processedFiles (buildDependencyTree env fs f st))"
  "buildDependencyTree_processImports_dom (Inr (env, fs, f, imps, st)) \<Longrightarrow>
     set (st_processedFiles st) \<subseteq> set (st_processedFiles (processImports env fs f imps st))"
proof (induction env fs f st and env fs f imps st
        rule: buildDependencyTree_processImports.pinduct)
  case (1 env fs f st)
  note dom = 1(1)
  show ?case
  proof (cases "set_has (st_processedFiles st) f")
    case True
    then show ?thesis using dom by (simp add: buildDependencyTree.psimps)
  next
    case False
    define st1 where "st1 = st\<lparr>st_processedFiles := set_add (st_processedFiles st) f\<rparr>"
    have g: "set (st_processedFiles st) \<subseteq> set (st_processedFiles st1)"
      by (auto simp add: st1_def set_set_add)
    show ?thesis
    proof (cases "readAndParse fs f")
      case None
      then show ?thesis using dom False g
        by (simp add: buildDependencyTree.psimps st1_def)
    next
      case (Some ast)
      obtain imps ex where tr:
        "traverse f ast ([], map_set (st_exports st1) f []) = (imps, ex)"
        by (cases "traverse f ast ([], map_set (st_exports st1) f [])")
      let ?st2 = "st1\<lparr>st_dependencies := map_set (st_dependencies st1) f [],
                          st_exports := ex\<rparr>"
      have "set (st_processedFiles ?st2)
          \<subseteq> set (st_processedFiles (processImports env fs f imps ?st2))"
        using 1(2)[OF False st1_def Some tr[symmetric]] .
      moreover have "buildDependencyTree env fs f st = processImports env fs f imps ?st2"
        using dom False Some tr
        by (simp add: buildDependencyTree.psimps st1_def[symmetric])
      ultimately show ?thesis using g by auto
    qed
  qed
next
  case (2 env fs f st)
  then show ?case by (simp add: processImports.psimps)
next
  case (3 env fs f imp rest st)
  note dom = 3(1)
  show ?case
  proof (cases "resolveImportPath env fs f imp")
    case None
    then show ?thesis using 3(2)[OF None] dom by (simp add: processImports.psimps)
  next
    case (Some p)
    define st1 where
      "st1 = st\<lparr>st_dependencies := map_get_add (st_dependencies st) f p\<rparr>"
    have g: "st_processedFiles st1 = st_processedFiles st" by (simp add: st1_def)
    show ?thesis
    proof (cases "p = []")
      case True
      then show ?thesis using 3(3)[OF Some True] dom Some by (simp add: processImports.psimps)
    next
      case ne: False
      show ?thesis
      proof (cases "set_has (st_processedFiles st1) p")
        case True
        have "set (st_processedFiles st1)
            \<subseteq> set (st_processedFiles (processImports env fs f rest st1))"
          using 3(6)[OF Some ne st1_def] True by simp
        moreover have "processImports env fs f (imp # rest) st
            = processImports env fs f rest st1"
          using dom Some ne True by (simp add: processImports.psimps st1_def[symmetric])
        ultimately show ?thesis using g by simp
      next
        case False
        let ?st2 = "buildDependencyTree env fs p st1"
        have a: "set (st_processedFiles st1) \<subseteq> set (st_processedFiles ?st2)"
          using 3(4)[OF Some ne st1_def False] .
        have b: "set (st_processedFiles ?st2)
            \<subseteq> set (st_processedFiles (processImports env fs f rest ?st2))"
          using 3(5)[OF Some ne st1_def False] .
        have "processImports env fs f (imp # rest) st = processImports env fs f rest ?st2"
          using dom Some ne False by (simp add: processImports.psimps st1_def[symmetric])
        then show ?thesis using a b g by auto
      qed
    qed
  qed
qed

text \<open>
  The measure: the number of regular files of the file system not yet processed, then
  the number of imports still pending.
\<close>

lemma buildDependencyTree_total: "All buildDependencyTree_processImports_dom"
  apply (relation "inv_image (less_than <*lex*> less_than)
    (\<lambda>x. case x of
        Inl (env, fs, f, st) \<Rightarrow>
          (card ({p. stat_isFile fs p} - set (st_processedFiles st)), 0)
      | Inr (env, fs, f, imps, st) \<Rightarrow>
          (card ({p. stat_isFile fs p} - set (st_processedFiles st)), Suc (length imps)))")
  subgoal by (intro wf_inv_image wf_lex_prod wf_less_than)
  subgoal for env fs f st st1 ast imps ex
  proof -
    assume a: "\<not> set_has (st_processedFiles st) f"
      "st1 = st\<lparr>st_processedFiles := set_add (st_processedFiles st) f\<rparr>"
      "readAndParse fs f = Some ast"
    have "f \<in> {p. stat_isFile fs p} - set (st_processedFiles st)"
      using a readAndParse_isFile by (simp add: set_has_def)
    then have "{p. stat_isFile fs p} - set (st_processedFiles st1)
        \<subset> {p. stat_isFile fs p} - set (st_processedFiles st)"
      using a by (auto simp add: set_set_add)
    then have "card ({p. stat_isFile fs p} - set (st_processedFiles st1))
        < card ({p. stat_isFile fs p} - set (st_processedFiles st))"
      by (intro psubset_card_mono finite_Diff finite_regular_files)
    then show ?thesis using a by simp
  qed
  subgoal by simp
  subgoal by simp
  subgoal by simp
  subgoal for env fs f imp rest st p st1
  proof -
    assume a: "st1 = st\<lparr>st_dependencies := map_get_add (st_dependencies st) f p\<rparr>"
      "buildDependencyTree_processImports_dom (Inl (env, fs, p, st1))"
    have "set (st_processedFiles st)
        \<subseteq> set (st_processedFiles (buildDependencyTree env fs p st1))"
      using processed_grows_partial(1)[OF a(2)] a(1) by simp
    then have "card ({p. stat_isFile fs p}
          - set (st_processedFiles (buildDependencyTree env fs p st1)))
        \<le> card ({p. stat_isFile fs p} - set (st_processedFiles st))"
      by (intro card_mono finite_Diff finite_regular_files) auto
    then show ?thesis by auto
  qed
  subgoal by simp
  done

termination buildDependencyTree
  by (rule buildDependencyTree_total)

text \<open>
  \<^verbatim>\<open>analyzeFileChanges\<close>: build from empty containers, then analyze with an empty visited
  set. \<^verbatim>\<open>modifiedExports\<close> is optional and defaults to the empty list.
\<close>

definition empty_state :: build_state where
  "empty_state = \<lparr>st_dependencies = [], st_exports = [], st_processedFiles = []\<rparr>"

definition analyzeFileChanges ::
  "platform \<Rightarrow> file_system \<Rightarrow> string \<Rightarrow> string \<Rightarrow> string \<Rightarrow> string list option
    \<Rightarrow> DependencyNode" where
  "analyzeFileChanges env fs entryFile changedFile changeType modifiedExports =
     (let st = buildDependencyTree env fs entryFile empty_state
      in fst (analyzeImpact changedFile (st_dependencies st) (st_exports st) changeType
                (case modifiedExports of None \<Rightarrow> [] | Some names \<Rightarrow> names) []))"

section \<open>Notions used to state the properties\<close>

text \<open>
  What a module hands to the builder: its import specifiers and the export names it adds,
  both in source order; the specifiers that resolve; whether a file can be read and parsed.
\<close>

definition parses :: "file_system \<Rightarrow> string \<Rightarrow> bool" where
  "parses fs f = (readAndParse fs f \<noteq> None)"

fun importSources :: "ast_node list \<Rightarrow> string list" where
  "importSources [] = []"
| "importSources (ImportDeclaration s # ns) = s # importSources ns"
| "importSources (n # ns) = importSources ns"

fun exportedNames :: "ast_node list \<Rightarrow> string list" where
  "exportedNames [] = []"
| "exportedNames (ExportNamedDeclaration (Some d) # ns) =
     (case exportName d of
        None \<Rightarrow> exportedNames ns
      | Some name \<Rightarrow> if name \<noteq> [] then name # exportedNames ns else exportedNames ns)"
| "exportedNames (ExportDefaultDeclaration # ns) = ''default'' # exportedNames ns"
| "exportedNames (n # ns) = exportedNames ns"

definition resolved :: "platform \<Rightarrow> file_system \<Rightarrow> string \<Rightarrow> string list \<Rightarrow> string list" where
  "resolved env fs f imps =
     filter (\<lambda>p. p \<noteq> []) (List.map_filter (resolveImportPath env fs f) imps)"

text \<open>
  A processed file is complete in a state when, if it parses, its entries hold all its
  resolved imports and export names and every import is processed. \<open>ext\<close> relates the
  state before a call to the state after it: the new files are appended and complete, and
  no file processed before is touched, except for the dependencies of the files in \<open>A\<close>.
\<close>

definition complete :: "platform \<Rightarrow> file_system \<Rightarrow> string \<Rightarrow> build_state \<Rightarrow> bool" where
  "complete env fs g st =
     (case readAndParse fs g of
        None \<Rightarrow> True
      | Some ast \<Rightarrow>
          map_get (st_dependencies st) g
            = Some (foldl set_add [] (resolved env fs g (importSources ast))) \<and>
          map_get (st_exports st) g = Some (foldl set_add [] (exportedNames ast)) \<and>
          set (resolved env fs g (importSources ast)) \<subseteq> set (st_processedFiles st))"

definition inv0 :: "build_state \<Rightarrow> bool" where
  "inv0 st =
     (set (map_keys (st_dependencies st)) \<subseteq> set (st_processedFiles st) \<and>
      set (map_keys (st_exports st)) \<subseteq> set (st_processedFiles st) \<and>
      distinct (st_processedFiles st))"

definition ext ::
  "platform \<Rightarrow> file_system \<Rightarrow> string set \<Rightarrow> build_state \<Rightarrow> build_state \<Rightarrow> bool" where
  "ext env fs A st st' =
     ((\<exists>new. st_processedFiles st' = st_processedFiles st @ new \<and>
         map_keys (st_dependencies st')
           = map_keys (st_dependencies st) @ filter (parses fs) new \<and>
         map_keys (st_exports st') = map_keys (st_exports st) @ filter (parses fs) new \<and>
         (\<forall>g \<in> set new. complete env fs g st')) \<and>
      distinct (st_processedFiles st') \<and>
      (\<forall>g \<in> set (st_processedFiles st). g \<notin> A \<longrightarrow>
         map_get (st_dependencies st') g = map_get (st_dependencies st) g) \<and>
      (\<forall>g \<in> set (st_processedFiles st).
         map_get (st_exports st') g = map_get (st_exports st) g))"

section \<open>Example projects\<close>

text \<open>
  An instance of the platform for the examples: POSIX paths, absolute and without
  trailing slashes.
\<close>

fun split_slash :: "string \<Rightarrow> string \<Rightarrow> string list" where
  "split_slash cur [] = [cur]"
| "split_slash cur (c # cs) =
     (if c = CHR ''/'' then cur # split_slash [] cs else split_slash (cur @ [c]) cs)"

fun normalize_segments :: "string list \<Rightarrow> string list \<Rightarrow> string list" where
  "normalize_segments acc [] = rev acc"
| "normalize_segments acc (s # ss) =
     (if s = [] \<or> s = ''.'' then normalize_segments acc ss
      else if s = ''..'' then normalize_segments (tl acc) ss
      else normalize_segments (s # acc) ss)"

definition posix_absolute :: "string \<Rightarrow> string" where
  "posix_absolute p = ''/'' @ js_join ''/'' (normalize_segments [] (split_slash [] p))"

definition posix_resolve :: "string \<Rightarrow> string list \<Rightarrow> string" where
  "posix_resolve dir parts =
     posix_absolute
       (foldl (\<lambda>acc part. if part = [] then acc
                           else if hd part = CHR ''/'' then part
                           else acc @ ''/'' @ part) dir parts)"

definition posix_dirname :: "string \<Rightarrow> string" where
  "posix_dirname p =
     (let segs = split_slash [] p
      in if length segs \<le> 1 then ''.''
         else let d = js_join ''/'' (butlast segs) in if d = [] then ''/'' else d)"

definition posix :: "string \<Rightarrow> platform" where
  "posix dir =
     \<lparr>cwd = dir, path_resolve = posix_resolve dir, path_dirname = posix_dirname,
      path_join = (\<lambda>parts. posix_absolute (js_join ''/'' parts))\<rparr>"

text \<open>
  A project with an alias import of a directory, an external module, a missing file, a
  malformed file and an import cycle; two files that import each other; two independent
  dependents of one library; a file with two dependents, one of which imports the other.
\<close>

definition project :: file_system where
  "project =
     [(''/p'', Directory), (''/p/src'', Directory), (''/p/src/util'', Directory),
      (''/p/src/index.ts'', RegularFile (Some
         [ImportDeclaration ''react'', ImportDeclaration ''./a'', ImportDeclaration ''./b'',
          ImportDeclaration ''@/util'', ImportDeclaration ''./missing''])),
      (''/p/src/a.ts'', RegularFile (Some
         [ImportDeclaration ''./index'',
          ExportNamedDeclaration (Some (VariableDeclaration (Some ''foo'') [])),
          ExportDefaultDeclaration])),
      (''/p/src/b.ts'', RegularFile None),
      (''/p/src/util/index.ts'', RegularFile (Some
         [ImportDeclaration ''../a'',
          ExportNamedDeclaration (Some (OtherDeclaration (Some ''helper'')))]))]"

definition mutual :: file_system where
  "mutual =
     [(''/p'', Directory),
      (''/p/a.ts'', RegularFile (Some [ImportDeclaration ''./b''])),
      (''/p/b.ts'', RegularFile (Some [ImportDeclaration ''./a'']))]"

definition two_dependents :: file_system where
  "two_dependents =
     [(''/p'', Directory),
      (''/p/main.ts'', RegularFile (Some [ImportDeclaration ''./x'', ImportDeclaration ''./y''])),
      (''/p/x.ts'', RegularFile (Some [ImportDeclaration ''./lib''])),
      (''/p/y.ts'', RegularFile (Some [ImportDeclaration ''./lib''])),
      (''/p/lib.ts'', RegularFile (Some [ExportDefaultDeclaration]))]"

definition diamond :: file_system where
  "diamond =
     [(''/p'', Directory),
      (''/p/e.ts'', RegularFile (Some [ImportDeclaration ''./g'', ImportDeclaration ''./f''])),
      (''/p/g.ts'', RegularFile (Some [ImportDeclaration ''./a''])),
      (''/p/f.ts'', RegularFile (Some [ImportDeclaration ''./a'', ImportDeclaration ''./g''])),
      (''/p/a.ts'', RegularFile (Some [ExportDefaultDeclaration]))]"

section \<open>Properties of the impact analyzer\<close>

lemma nodes_unfold: "nodes n = n # descendants n"
  by (cases n) (simp add: descendants_def)

lemma truthy_determineImpactReason:
  "truthy (determineImpactReason cf f ct me ex)"
  by (simp add: truthy_def determineImpactReason_def)

lemma scanEntries_Cons:
  "scanEntries cf ds ex ct me ((f, deps) # rest) v =
     (if set_has deps cf \<and> \<not> set_has v f then
        (case analyzeImpact f ds ex ''affected'' me (set_add v f) of
           (childImpact, v2) \<Rightarrow>
             (case scanEntries cf ds ex ct me rest v2 of
                (cs, v3) \<Rightarrow>
                  (set_reason childImpact (determineImpactReason cf f ct me ex) # cs, v3)))
      else scanEntries cf ds ex ct me rest v)"
  by (simp add: truthy_determineImpactReason Let_def)

lemma set_reason_sel [simp]:
  "nodeFile (set_reason n r) = nodeFile n"
  "nodeChangeType (set_reason n r) = nodeChangeType n"
  "nodeReason (set_reason n r) = r"
  "nodeChildren (set_reason n r) = nodeChildren n"
  by (simp_all add: set_reason_def)

lemma descendants_set_reason [simp]: "descendants (set_reason n r) = descendants n"
  by (simp add: descendants_def)

lemma analyzeImpact_root:
  "fst (analyzeImpact cf ds ex ct me v) =
     DependencyNode cf ct None (fst (scanEntries cf ds ex ct me ds v))"
  "snd (analyzeImpact cf ds ex ct me v) = snd (scanEntries cf ds ex ct me ds v)"
  by (simp_all split: prod.splits)

declare analyzeImpact.simps [simp del] scanEntries.simps(2) [simp del]

lemma scanEntries_step:
  assumes "set_has deps cf" "\<not> set_has v f"
  shows "fst (scanEntries cf ds ex ct me ((f, deps) # rest) v) =
           set_reason (fst (analyzeImpact f ds ex ''affected'' me (set_add v f)))
             (determineImpactReason cf f ct me ex)
           # fst (scanEntries cf ds ex ct me rest
                   (snd (analyzeImpact f ds ex ''affected'' me (set_add v f))))"
    and "snd (scanEntries cf ds ex ct me ((f, deps) # rest) v) =
           snd (scanEntries cf ds ex ct me rest
                   (snd (analyzeImpact f ds ex ''affected'' me (set_add v f))))"
  using assms by (simp_all add: scanEntries_Cons split: prod.splits)

lemma scanEntries_skip:
  assumes "\<not> (set_has deps cf \<and> \<not> set_has v f)"
  shows "scanEntries cf ds ex ct me ((f, deps) # rest) v = scanEntries cf ds ex ct me rest v"
  using assms by (auto simp add: scanEntries_Cons)

text \<open>
  The visited set after a call is the set before it followed by the files of the nodes
  below the root, in the order of the recursive calls.
\<close>

lemma visited_trace:
  "snd (analyzeImpact cf ds ex ct me v) =
     v @ map nodeFile (descendants (fst (analyzeImpact cf ds ex ct me v)))"
  "snd (scanEntries cf ds ex ct me es v) =
     v @ map nodeFile (concat (map nodes (fst (scanEntries cf ds ex ct me es v))))"
proof (induction cf ds ex ct me v and cf ds ex ct me es v
        rule: analyzeImpact_scanEntries.induct)
  case (1 cf ds ex ct me v)
  then show ?case by (simp add: analyzeImpact_root descendants_def)
next
  case (2 cf ds ex ct me v)
  then show ?case by simp
next
  case (3 cf ds ex ct me f deps rest v)
  show ?case
  proof (cases "set_has deps cf \<and> \<not> set_has v f")
    case False
    then show ?thesis using 3(4) by (simp add: scanEntries_skip)
  next
    case True
    let ?v1 = "set_add v f"
    let ?r = "determineImpactReason cf f ct me ex"
    let ?a = "analyzeImpact f ds ex ''affected'' me ?v1"
    have tr: "truthy ?r" by (rule truthy_determineImpactReason)
    have a: "snd ?a = ?v1 @ map nodeFile (descendants (fst ?a))"
      using 3(1)[OF True refl refl tr] .
    have b: "snd (scanEntries cf ds ex ct me rest (snd ?a)) =
        snd ?a @ map nodeFile (concat (map nodes (fst (scanEntries cf ds ex ct me rest (snd ?a)))))"
      using 3(2)[OF True refl refl tr, of "fst ?a" "snd ?a"] by simp
    have v1: "?v1 = v @ [f]" using True by (simp add: set_add_def)
    have nf: "nodeFile (fst ?a) = f" by (simp add: analyzeImpact_root)
    show ?thesis
      using True a b v1 nf
      by (simp add: scanEntries_step nodes_unfold[of "set_reason _ _"])
  qed
qed

lemma visited_distinct:
  "distinct v \<Longrightarrow> distinct (snd (analyzeImpact cf ds ex ct me v))"
  "distinct v \<Longrightarrow> distinct (snd (scanEntries cf ds ex ct me es v))"
proof (induction cf ds ex ct me v and cf ds ex ct me es v
        rule: analyzeImpact_scanEntries.induct)
  case (1 cf ds ex ct me v)
  then show ?case by (simp add: analyzeImpact_root)
next
  case (2 cf ds ex ct me v)
  then show ?case by simp
next
  case (3 cf ds ex ct me f deps rest v)
  show ?case
  proof (cases "set_has deps cf \<and> \<not> set_has v f")
    case False
    then show ?thesis using 3(4)[OF False] 3(5) by (simp add: scanEntries_skip)
  next
    case True
    let ?v1 = "set_add v f"
    let ?r = "determineImpactReason cf f ct me ex"
    let ?a = "analyzeImpact f ds ex ''affected'' me ?v1"
    have tr: "truthy ?r" by (rule truthy_determineImpactReason)
    have v1: "distinct ?v1" using True 3(5) by (simp add: set_add_def set_has_def)
    have a: "distinct (snd ?a)"
      using 3(1)[OF True refl refl tr v1] .
    have b: "distinct (snd (scanEntries cf ds ex ct me rest (snd ?a)))"
      using 3(2)[OF True refl refl tr, of "fst ?a" "snd ?a"] a by simp
    show ?thesis
      using True b by (simp add: scanEntries_step)
  qed
qed

lemma truthy_iff: "truthy r \<longleftrightarrow> r \<noteq> None \<and> r \<noteq> Some []"
  by (cases r) (simp_all add: truthy_def)

lemma non_root_nodes:
  "list_all (\<lambda>d. nodeChangeType d = ''affected'' \<and> truthy (nodeReason d)) (descendants (fst (analyzeImpact cf ds ex ct me v)))"
  "list_all (\<lambda>d. nodeChangeType d = ''affected'' \<and> truthy (nodeReason d)) (concat (map nodes (fst (scanEntries cf ds ex ct me es v))))"
proof (induction cf ds ex ct me v and cf ds ex ct me es v
        rule: analyzeImpact_scanEntries.induct)
  case (1 cf ds ex ct me v)
  then show ?case by (simp add: analyzeImpact_root descendants_def)
next
  case (2 cf ds ex ct me v)
  then show ?case by simp
next
  case (3 cf ds ex ct me f deps rest v)
  show ?case
  proof (cases "set_has deps cf \<and> \<not> set_has v f")
    case False
    then show ?thesis using 3(4) by (simp add: scanEntries_skip)
  next
    case True
    let ?r = "determineImpactReason cf f ct me ex"
    let ?a = "analyzeImpact f ds ex ''affected'' me (set_add v f)"
    have tr: "truthy ?r" by (rule truthy_determineImpactReason)
    have a: "list_all (\<lambda>d. nodeChangeType d = ''affected'' \<and> truthy (nodeReason d)) (descendants (fst ?a))"
      using 3(1)[OF True refl refl tr] .
    have b: "list_all (\<lambda>d. nodeChangeType d = ''affected'' \<and> truthy (nodeReason d))
        (concat (map nodes (fst (scanEntries cf ds ex ct me rest (snd ?a)))))"
      using 3(2)[OF True refl refl tr, of "fst ?a" "snd ?a"] by simp
    have c: "nodeChangeType (set_reason (fst ?a) ?r) = ''affected'' \<and> truthy (nodeReason (set_reason (fst ?a) ?r))"
      using tr by (simp add: analyzeImpact_root)
    show ?thesis
      using True a b c
      by (simp add: scanEntries_step nodes_unfold[of "set_reason _ _"])
  qed
qed

lemma affected_reason: 
  "ct \<noteq> ''delete'' \<Longrightarrow> ct \<noteq> ''add'' \<Longrightarrow> ct \<noteq> ''modify'' \<Longrightarrow> determineImpactReason cf f ct me ex = Some ''File was modified''"
  by (simp add: determineImpactReason_def)

lemma affected_nodes:
  "ct = ''affected'' \<Longrightarrow>
     list_all (\<lambda>d. nodeReason d = Some ''File was modified'') (descendants (fst (analyzeImpact cf ds ex ct me v)))"
  "ct = ''affected'' \<Longrightarrow>
     list_all (\<lambda>d. nodeReason d = Some ''File was modified'') (concat (map nodes (fst (scanEntries cf ds ex ct me es v))))"
proof (induction cf ds ex ct me v and cf ds ex ct me es v
        rule: analyzeImpact_scanEntries.induct)
  case (1 cf ds ex ct me v)
  then show ?case by (simp add: analyzeImpact_root descendants_def)
next
  case (2 cf ds ex ct me v)
  then show ?case by simp
next
  case (3 cf ds ex ct me f deps rest v)
  show ?case
  proof (cases "set_has deps cf \<and> \<not> set_has v f")
    case False
    then show ?thesis using 3(4)[OF False 3(5)] by (simp add: scanEntries_skip)
  next
    case True
    let ?r = "determineImpactReason cf f ct me ex"
    let ?a = "analyzeImpact f ds ex ''affected'' me (set_add v f)"
    have tr: "truthy ?r" by (rule truthy_determineImpactReason)
    have a: "list_all (\<lambda>d. nodeReason d = Some ''File was modified'') (descendants (fst ?a))"
      using 3(1)[OF True refl refl tr refl] .
    have b: "list_all (\<lambda>d. nodeReason d = Some ''File was modified'')
        (concat (map nodes (fst (scanEntries cf ds ex ct me rest (snd ?a)))))"
      using 3(2)[OF True refl refl tr _ 3(5), of "fst ?a" "snd ?a"] by simp
    have c: "nodeReason (set_reason (fst ?a) ?r) = Some ''File was modified''"
      using 3(5) by (simp add: affected_reason)
    show ?thesis
      using True a b c
      by (simp add: scanEntries_step nodes_unfold[of "set_reason _ _"])
  qed
qed

lemma children_shape:
  "c \<in> set (fst (scanEntries cf ds ex ct me es v)) \<Longrightarrow>
     \<exists>f deps v'. (f, deps) \<in> set es \<and> set_has deps cf \<and>
        c = set_reason (fst (analyzeImpact f ds ex ''affected'' me v'))
              (determineImpactReason cf f ct me ex)"
proof (induction es arbitrary: v)
  case Nil
  then show ?case by simp
next
  case (Cons e es)
  obtain f deps where e: "e = (f, deps)" by (cases e)
  let ?shape = "\<lambda>es. \<exists>f deps v'. (f, deps) \<in> set es \<and> set_has deps cf \<and>
        c = set_reason (fst (analyzeImpact f ds ex ''affected'' me v'))
              (determineImpactReason cf f ct me ex)"
  have tail: "?shape es \<Longrightarrow> ?shape (e # es)"
    by (metis list.set_intros(2))
  show ?case
  proof (cases "set_has deps cf \<and> \<not> set_has v f")
    case False
    then have "c \<in> set (fst (scanEntries cf ds ex ct me es v))"
      using Cons.prems e by (simp add: scanEntries_skip)
    then show ?thesis using Cons.IH tail by blast
  next
    case True
    let ?a = "analyzeImpact f ds ex ''affected'' me (set_add v f)"
    from True Cons.prems e
    consider "c = set_reason (fst ?a) (determineImpactReason cf f ct me ex)"
      | "c \<in> set (fst (scanEntries cf ds ex ct me es (snd ?a)))"
      by (auto simp add: scanEntries_step)
    then show ?thesis
    proof cases
      case 1
      have "(f, deps) \<in> set (e # es)" using e by simp
      then show ?thesis using 1 True by blast
    next
      case 2
      then show ?thesis using Cons.IH tail by blast
    qed
  qed
qed

lemma children_in_scan_order:
  "list_all (\<lambda>n. subseq (map nodeFile (nodeChildren n)) (map fst ds))
     (nodes (fst (analyzeImpact cf ds ex ct me v)))"
  "subseq (map nodeFile (fst (scanEntries cf ds ex ct me es v))) (map fst es) \<and>
   list_all (\<lambda>n. subseq (map nodeFile (nodeChildren n)) (map fst ds))
     (concat (map nodes (fst (scanEntries cf ds ex ct me es v))))"
proof (induction cf ds ex ct me v and cf ds ex ct me es v
        rule: analyzeImpact_scanEntries.induct)
  case (1 cf ds ex ct me v)
  then show ?case by (simp add: analyzeImpact_root)
next
  case (2 cf ds ex ct me v)
  then show ?case by simp
next
  case (3 cf ds ex ct me f deps rest v)
  show ?case
  proof (cases "set_has deps cf \<and> \<not> set_has v f")
    case False
    then show ?thesis using 3(4)[OF False] by (auto simp add: scanEntries_skip)
  next
    case True
    let ?r = "determineImpactReason cf f ct me ex"
    let ?a = "analyzeImpact f ds ex ''affected'' me (set_add v f)"
    let ?ok = "\<lambda>n. subseq (map nodeFile (nodeChildren n)) (map fst ds)"
    have tr: "truthy ?r" by (rule truthy_determineImpactReason)
    have a: "list_all ?ok (nodes (fst ?a))"
      using 3(1)[OF True refl refl tr] .
    then have a': "?ok (set_reason (fst ?a) ?r)" "list_all ?ok (descendants (fst ?a))"
      by (simp_all add: nodes_unfold[of "fst ?a"])
    have b: "subseq (map nodeFile (fst (scanEntries cf ds ex ct me rest (snd ?a)))) (map fst rest)"
      "list_all ?ok (concat (map nodes (fst (scanEntries cf ds ex ct me rest (snd ?a)))))"
      using 3(2)[OF True refl refl tr, of "fst ?a" "snd ?a"] by simp_all
    have nf: "nodeFile (fst ?a) = f" by (simp add: analyzeImpact_root)
    show ?thesis
      using True a' b nf
      by (simp add: scanEntries_step nodes_unfold[of "set_reason _ _"])
  qed
qed

text \<open>
  Where the direct dependents of the changed file end up: each one that is not yet
  visited gets a node below the root; no file has two nodes below the root; and every
  node is a dependent of its parent.
\<close>

lemma descendants_parent:
  "n \<in> set (descendants t) \<Longrightarrow> \<exists>p \<in> set (nodes t). n \<in> set (nodeChildren p)"
proof (induction t)
  case (DependencyNode f c r cs)
  from DependencyNode.prems obtain c' where c': "c' \<in> set cs" "n \<in> set (nodes c')"
    by (auto simp add: descendants_def)
  show ?case
  proof (cases "n = c'")
    case True
    then show ?thesis using c'(1) by auto
  next
    case False
    then have "n \<in> set (descendants c')" using c'(2) by (simp add: nodes_unfold[of c'])
    then obtain p where "p \<in> set (nodes c')" "n \<in> set (nodeChildren p)"
      using DependencyNode.IH[OF c'(1)] by blast
    then show ?thesis using c'(1) by auto
  qed
qed

lemma child_in_descendants:
  "p \<in> set (nodes t) \<Longrightarrow> n \<in> set (nodeChildren p) \<Longrightarrow> n \<in> set (descendants t)"
proof (induction t)
  case (DependencyNode f c r cs)
  show ?case
  proof (cases "p = DependencyNode f c r cs")
    case True
    then have "n \<in> set cs" using DependencyNode.prems(2) by simp
    moreover have "n \<in> set (nodes n)" by (simp add: nodes_unfold[of n])
    ultimately show ?thesis by (auto simp add: descendants_def)
  next
    case False
    then obtain c' where c': "c' \<in> set cs" "p \<in> set (nodes c')"
      using DependencyNode.prems(1) by auto
    then have "n \<in> set (descendants c')"
      using DependencyNode.IH DependencyNode.prems(2) by blast
    then have "n \<in> set (nodes c')" by (simp add: nodes_unfold[of c'])
    then show ?thesis using c'(1) by (auto simp add: descendants_def)
  qed
qed

lemma visited_mono:
  "set v \<subseteq> set (snd (scanEntries cf ds ex ct me es v))"
  "set v \<subseteq> set (snd (analyzeImpact cf ds ex ct me v))"
  using visited_trace(2)[of cf ds ex ct me es v] visited_trace(1)[of cf ds ex ct me v]
  by auto

lemma dependents_visited:
  "(f, deps) \<in> set es \<Longrightarrow> set_has deps cf \<Longrightarrow>
     f \<in> set (snd (scanEntries cf ds ex ct me es v))"
proof (induction es arbitrary: v)
  case Nil
  then show ?case by simp
next
  case (Cons e es)
  obtain f' deps' where e: "e = (f', deps')" by (cases e)
  show ?case
  proof (cases "set_has deps' cf \<and> \<not> set_has v f'")
    case True
    let ?a = "analyzeImpact f' ds ex ''affected'' me (set_add v f')"
    have s: "snd (scanEntries cf ds ex ct me (e # es) v)
        = snd (scanEntries cf ds ex ct me es (snd ?a))"
      using True e by (simp add: scanEntries_step)
    show ?thesis
    proof (cases "(f, deps) = e")
      case True
      have "f \<in> set (set_add v f')" using True e by (simp add: set_set_add)
      then have "f \<in> set (snd ?a)"
        using visited_mono(2)[of "set_add v f'" f' ds ex "''affected''" me] by blast
      then have "f \<in> set (snd (scanEntries cf ds ex ct me es (snd ?a)))"
        using visited_mono(1)[of "snd ?a" cf ds ex ct me es] by blast
      then show ?thesis using s by simp
    next
      case False
      then have "(f, deps) \<in> set es" using Cons.prems(1) by simp
      then show ?thesis using Cons.IH Cons.prems(2) s by simp
    qed
  next
    case False
    then have s: "scanEntries cf ds ex ct me (e # es) v = scanEntries cf ds ex ct me es v"
      using e by (simp add: scanEntries_skip)
    show ?thesis
    proof (cases "(f, deps) = e")
      case True
      then have "f \<in> set v" using False e Cons.prems(2) by (auto simp add: set_has_def)
      then have "f \<in> set (snd (scanEntries cf ds ex ct me es v))"
        using visited_mono(1)[of v cf ds ex ct me es] by blast
      then show ?thesis using s by simp
    next
      case False
      then have "(f, deps) \<in> set es" using Cons.prems(1) by simp
      then show ?thesis using Cons.IH Cons.prems(2) s by simp
    qed
  qed
qed

lemma dependent_in_tree:
  assumes "(f, deps) \<in> set ds" "set_has deps cf" "\<not> set_has v f"
  shows "f \<in> set (map nodeFile (descendants (fst (analyzeImpact cf ds ex ct me v))))"
proof -
  have "f \<in> set (snd (analyzeImpact cf ds ex ct me v))"
    using dependents_visited[OF assms(1,2)] by (simp add: analyzeImpact_root)
  then show ?thesis
    using visited_trace(1)[of cf ds ex ct me v] assms(3) by (auto simp add: set_has_def)
qed

lemma fresh_append:
  assumes "distinct A" "set A \<inter> (V \<union> {f}) = {}" "distinct B"
    "set B \<inter> (V \<union> {f} \<union> set A) = {}" "f \<notin> V"
  shows "distinct (f # A @ B) \<and> set (f # A @ B) \<inter> V = {}"
  using assms by auto

lemma fresh_files:
  "distinct (map nodeFile (descendants (fst (analyzeImpact cf ds ex ct me v)))) \<and>
   set (map nodeFile (descendants (fst (analyzeImpact cf ds ex ct me v)))) \<inter> set v = {}"
  "distinct (map nodeFile (concat (map nodes (fst (scanEntries cf ds ex ct me es v))))) \<and>
   set (map nodeFile (concat (map nodes (fst (scanEntries cf ds ex ct me es v))))) \<inter> set v = {}"
proof (induction cf ds ex ct me v and cf ds ex ct me es v
        rule: analyzeImpact_scanEntries.induct)
  case (1 cf ds ex ct me v)
  then show ?case by (simp add: analyzeImpact_root descendants_def)
next
  case (2 cf ds ex ct me v)
  then show ?case by simp
next
  case (3 cf ds ex ct me f deps rest v)
  show ?case
  proof (cases "set_has deps cf \<and> \<not> set_has v f")
    case False
    then show ?thesis using 3(4)[OF False] by (simp add: scanEntries_skip)
  next
    case True
    let ?r = "determineImpactReason cf f ct me ex"
    let ?a = "analyzeImpact f ds ex ''affected'' me (set_add v f)"
    let ?Da = "map nodeFile (descendants (fst ?a))"
    let ?Dr = "map nodeFile (concat (map nodes (fst (scanEntries cf ds ex ct me rest (snd ?a)))))"
    have tr: "truthy ?r" by (rule truthy_determineImpactReason)
    have v1: "set_add v f = v @ [f]" using True by (simp add: set_add_def)
    have fv: "f \<notin> set v" using True by (simp add: set_has_def)
    have a: "distinct ?Da" "set ?Da \<inter> (set v \<union> {f}) = {}"
      using 3(1)[OF True refl refl tr] v1 by simp_all
    have sa: "snd ?a = v @ [f] @ ?Da"
      using visited_trace(1)[of f ds ex "''affected''" me "set_add v f"] v1 by simp
    have ssa: "set (snd ?a) = set v \<union> {f} \<union> set ?Da"
      by (subst sa) auto
    have b0: "distinct ?Dr \<and> set ?Dr \<inter> set (snd ?a) = {}"
      using 3(2)[OF True refl refl tr, of "fst ?a" "snd ?a"] by simp
    have b: "distinct ?Dr" "set ?Dr \<inter> (set v \<union> {f} \<union> set ?Da) = {}"
      using b0 unfolding ssa by blast+
    have nf: "nodeFile (fst ?a) = f" by (simp add: analyzeImpact_root)
    have files: "map nodeFile (concat (map nodes
        (fst (scanEntries cf ds ex ct me ((f, deps) # rest) v)))) = f # ?Da @ ?Dr"
      using True nf by (simp add: scanEntries_step nodes_unfold[of "set_reason _ _"])
    show ?thesis
      unfolding files by (rule fresh_append[OF a b fv])
  qed
qed

lemma tree_edges:
  "list_all (\<lambda>p. \<forall>c \<in> set (nodeChildren p).
       \<exists>deps. (nodeFile c, deps) \<in> set ds \<and> set_has deps (nodeFile p))
     (nodes (fst (analyzeImpact cf ds ex ct me v)))"
  "list_all (\<lambda>p. \<forall>c \<in> set (nodeChildren p).
       \<exists>deps. (nodeFile c, deps) \<in> set ds \<and> set_has deps (nodeFile p))
     (concat (map nodes (fst (scanEntries cf ds ex ct me es v))))"
proof (induction cf ds ex ct me v and cf ds ex ct me es v
        rule: analyzeImpact_scanEntries.induct)
  case (1 cf ds ex ct me v)
  let ?cs = "fst (scanEntries cf ds ex ct me ds v)"
  have "\<exists>deps. (nodeFile c, deps) \<in> set ds \<and> set_has deps cf" if "c \<in> set ?cs" for c
  proof -
    from children_shape[OF that] obtain f deps v' where
      "(f, deps) \<in> set ds" "set_has deps cf"
      "c = set_reason (fst (analyzeImpact f ds ex ''affected'' me v'))
             (determineImpactReason cf f ct me ex)"
      by blast
    then show ?thesis by (auto simp add: analyzeImpact_root)
  qed
  then show ?case
    using 1 by (simp add: analyzeImpact_root nodes_unfold[of "DependencyNode _ _ _ _"]
        descendants_def)
next
  case (2 cf ds ex ct me v)
  then show ?case by simp
next
  case (3 cf ds ex ct me f deps rest v)
  let ?ok = "\<lambda>p. \<forall>c \<in> set (nodeChildren p).
       \<exists>deps. (nodeFile c, deps) \<in> set ds \<and> set_has deps (nodeFile p)"
  show ?case
  proof (cases "set_has deps cf \<and> \<not> set_has v f")
    case False
    then show ?thesis using 3(4)[OF False] by (simp add: scanEntries_skip)
  next
    case True
    let ?r = "determineImpactReason cf f ct me ex"
    let ?a = "analyzeImpact f ds ex ''affected'' me (set_add v f)"
    have tr: "truthy ?r" by (rule truthy_determineImpactReason)
    have a: "list_all ?ok (nodes (fst ?a))"
      using 3(1)[OF True refl refl tr] .
    then have a': "?ok (set_reason (fst ?a) ?r)" "list_all ?ok (descendants (fst ?a))"
      by (simp_all add: nodes_unfold[of "fst ?a"])
    have b: "list_all ?ok (concat (map nodes (fst (scanEntries cf ds ex ct me rest (snd ?a)))))"
      using 3(2)[OF True refl refl tr, of "fst ?a" "snd ?a"] by simp
    show ?thesis
      using True a' b
      by (simp add: scanEntries_step nodes_unfold[of "set_reason _ _"])
  qed
qed

lemma filter_unique:
  "distinct (map g xs) \<Longrightarrow> x \<in> set xs \<Longrightarrow> filter (\<lambda>y. g y = g x) xs = [x]"
proof (induction xs)
  case Nil
  then show ?case by simp
next
  case (Cons a xs)
  show ?case
  proof (cases "x = a")
    case True
    have "g a \<notin> set (map g xs)" using Cons.prems(1) by simp
    then have "\<forall>y \<in> set xs. g y \<noteq> g a"
      by (metis image_eqI list.set_map)
    then have "filter (\<lambda>y. g y = g a) xs = []"
      by (simp add: filter_empty_conv)
    then show ?thesis using True by simp
  next
    case False
    then have x: "x \<in> set xs" using Cons.prems(2) by simp
    then have "g a \<noteq> g x" using Cons.prems(1) by auto
    then show ?thesis using Cons.IH x Cons.prems(1) by simp
  qed
qed

lemma delete_children:
  assumes "c \<in> set (nodeChildren (fst (analyzeImpact cf ds ex ''delete'' me v)))"
  shows "nodeReason c = Some ''File was deleted''"
    and "\<exists>deps. (nodeFile c, deps) \<in> set ds \<and> set_has deps cf"
proof -
  from assms obtain f deps v' where c:
    "c = set_reason (fst (analyzeImpact f ds ex ''affected'' me v'))
           (determineImpactReason cf f ''delete'' me ex)"
    and f: "(f, deps) \<in> set ds" "set_has deps cf"
    using children_shape[of c cf ds ex "''delete''" me ds v]
    by (auto simp add: analyzeImpact_root)
  show "nodeReason c = Some ''File was deleted''"
    using c by (simp add: determineImpactReason_def)
  have "nodeFile c = f" using c by (simp add: analyzeImpact_root)
  then show "\<exists>deps. (nodeFile c, deps) \<in> set ds \<and> set_has deps cf"
    using f by blast
qed

lemma deeper_reason:
  assumes "c \<in> set (nodeChildren (fst (analyzeImpact cf ds ex ct me v)))"
    and "d \<in> set (descendants c)"
  shows "nodeReason d = Some ''File was modified''"
proof -
  from assms(1) obtain f v' where
    "c = set_reason (fst (analyzeImpact f ds ex ''affected'' me v'))
           (determineImpactReason cf f ct me ex)"
    using children_shape[of c cf ds ex ct me ds v]
    by (auto simp add: analyzeImpact_root)
  then have "d \<in> set (descendants (fst (analyzeImpact f ds ex ''affected'' me v')))"
    using assms(2) by simp
  then show ?thesis
    using affected_nodes(1)[OF refl, of f ds ex me v'] by (simp add: list_all_iff)
qed

lemmas impact_eval =
  analyzeImpact.simps scanEntries_Cons set_has_def set_add_def determineImpactReason_def
  set_reason_def map_get_def descendants_def

section \<open>Properties of the resolver and the builder\<close>

lemma probeExtensions_find:
  "probeExtensions fs p exts = find (stat_isFile fs) (map (\<lambda>ext. p @ ext) exts)"
  by (induction exts) (simp_all add: Let_def)

lemma probeIndex_find:
  "probeIndex env fs p exts
     = find (stat_isFile fs) (map (\<lambda>ext. path_join env [p, ''index'' @ ext]) exts)"
  by (induction exts) (simp_all add: Let_def)

lemma find_append_case:
  "find P (xs @ ys) = (case find P xs of Some x \<Rightarrow> Some x | None \<Rightarrow> find P ys)"
  by (induction xs) simp_all

lemma find_Some_D: "find P xs = Some x \<Longrightarrow> P x"
  by (induction xs) (auto split: if_splits)

lemma probeExtensions_isFile: "probeExtensions fs p exts = Some d \<Longrightarrow> stat_isFile fs d"
  by (simp add: probeExtensions_find find_Some_D)

lemma probeIndex_isFile: "probeIndex env fs p exts = Some d \<Longrightarrow> stat_isFile fs d"
  by (simp add: probeIndex_find find_Some_D)

lemma resolve_isFile:
  assumes "resolveImportPath env fs f spec = Some d"
  shows "stat_isFile fs d" and "\<not> is_bare spec"
proof -
  show "\<not> is_bare spec"
    using assms by (auto simp add: resolveImportPath_def is_bare_def split: if_splits)
  show "stat_isFile fs d"
    using assms unfolding resolveImportPath_def Let_def
    by (auto split: if_splits option.splits dest: probeExtensions_isFile probeIndex_isFile)
qed

lemma map_get_map_set: "map_get (map_set m k v) k' = (if k' = k then Some v else map_get m k')"
  by (induction m k v rule: map_set.induct) (auto simp add: map_get_def)

lemma map_keys_map_set:
  "map_keys (map_set m k v) = (if k \<in> set (map_keys m) then map_keys m else map_keys m @ [k])"
  by (induction m k v rule: map_set.induct) (auto simp add: map_keys_def)

lemma map_get_None_iff: "map_get m k = None \<longleftrightarrow> k \<notin> set (map_keys m)"
  by (simp add: map_get_def map_keys_def map_of_eq_None_iff)

lemma map_get_map_get_add:
  "map_get (map_get_add m k x) k' =
     (if k' = k then map_option (\<lambda>s. set_add s x) (map_get m k) else map_get m k')"
  by (cases "map_get m k") (simp_all add: map_get_add_def map_get_map_set)

lemma map_keys_map_get_add: "map_keys (map_get_add m k x) = map_keys m"
  by (cases "map_get m k")
     (auto simp add: map_get_add_def map_keys_map_set map_get_None_iff[symmetric])

lemma map_get_of_entry:
  "distinct (map_keys m) \<Longrightarrow> (k, v) \<in> set m \<Longrightarrow> map_get m k = Some v"
  by (simp add: map_get_def map_keys_def)

lemma set_foldl_set_add: "set (foldl set_add s xs) = set s \<union> set xs"
  by (induction xs arbitrary: s) (auto simp add: set_set_add)

lemma visit_char:
  assumes "map_get ex f = Some s"
  shows "\<exists>ex'. visit f n (imps, ex) = (imps @ importSources [n], ex') \<and>
           map_get ex' f = Some (foldl set_add s (exportedNames [n])) \<and>
           map_keys ex' = map_keys ex \<and>
           (\<forall>g. g \<noteq> f \<longrightarrow> map_get ex' g = map_get ex g)"
proof (cases n)
  case (ImportDeclaration x1)
  then show ?thesis using assms by simp
next
  case (ExportNamedDeclaration od)
  show ?thesis
  proof (cases od)
    case None
    then show ?thesis using assms ExportNamedDeclaration by simp
  next
    case (Some d)
    then show ?thesis using assms ExportNamedDeclaration
      by (cases "exportName d")
         (auto simp add: map_get_map_get_add map_keys_map_get_add)
  qed
next
  case ExportDefaultDeclaration
  then show ?thesis using assms
    by (auto simp add: map_get_map_get_add map_keys_map_get_add)
next
  case OtherNode
  then show ?thesis using assms by simp
qed

lemma importSources_append: "importSources (n # ns) = importSources [n] @ importSources ns"
  by (cases n) simp_all

lemma exportedNames_append: "exportedNames (n # ns) = exportedNames [n] @ exportedNames ns"
  by (induction "n # ns" rule: exportedNames.induct) (auto split: option.splits)

lemma traverse_char:
  "map_get ex f = Some s \<Longrightarrow>
     \<exists>ex'. traverse f ast (imps, ex) = (imps @ importSources ast, ex') \<and>
           map_get ex' f = Some (foldl set_add s (exportedNames ast)) \<and>
           map_keys ex' = map_keys ex \<and>
           (\<forall>g. g \<noteq> f \<longrightarrow> map_get ex' g = map_get ex g)"
proof (induction ast arbitrary: ex s imps)
  case Nil
  then show ?case by (simp add: traverse_def)
next
  case (Cons n ast)
  from visit_char[OF Cons.prems, of n imps] obtain ex1 where
    v: "visit f n (imps, ex) = (imps @ importSources [n], ex1)"
       "map_get ex1 f = Some (foldl set_add s (exportedNames [n]))"
       "map_keys ex1 = map_keys ex"
       "\<forall>g. g \<noteq> f \<longrightarrow> map_get ex1 g = map_get ex g"
    by blast
  from Cons.IH[OF v(2), of "imps @ importSources [n]"] obtain ex2 where
    t: "traverse f ast (imps @ importSources [n], ex1)
          = ((imps @ importSources [n]) @ importSources ast, ex2)"
       "map_get ex2 f = Some (foldl set_add (foldl set_add s (exportedNames [n])) (exportedNames ast))"
       "map_keys ex2 = map_keys ex1"
       "\<forall>g. g \<noteq> f \<longrightarrow> map_get ex2 g = map_get ex1 g"
    by blast
  have "traverse f (n # ast) (imps, ex) = (imps @ importSources (n # ast), ex2)"
    using v(1) t(1) by (simp add: traverse_def importSources_append[of n ast])
  moreover have "map_get ex2 f = Some (foldl set_add s (exportedNames (n # ast)))"
    using t(2) by (simp add: exportedNames_append[of n ast])
  ultimately show ?case using v(3,4) t(3,4) by auto
qed

lemma ext_refl: "distinct (st_processedFiles st) \<Longrightarrow> ext env fs A st st"
  by (simp add: ext_def)

lemma ext_inv0: "inv0 st \<Longrightarrow> ext env fs A st st' \<Longrightarrow> inv0 st'"
  by (auto simp add: inv0_def ext_def)

lemma ext_processed_mono:
  "ext env fs A st st' \<Longrightarrow> set (st_processedFiles st) \<subseteq> set (st_processedFiles st')"
  by (auto simp add: ext_def)

lemma complete_mono:
  assumes "complete env fs g st"
    and "map_get (st_dependencies st') g = map_get (st_dependencies st) g"
    and "map_get (st_exports st') g = map_get (st_exports st) g"
    and "set (st_processedFiles st) \<subseteq> set (st_processedFiles st')"
  shows "complete env fs g st'"
  using assms by (auto simp add: complete_def split: option.splits)

lemma ext_trans:
  assumes 1: "ext env fs A st st1" and 2: "ext env fs B st1 st2"
    and B: "B \<subseteq> set (st_processedFiles st)"
  shows "ext env fs (A \<union> B) st st2"
proof -
  from 1 obtain new1 where n1:
    "st_processedFiles st1 = st_processedFiles st @ new1"
    "map_keys (st_dependencies st1) = map_keys (st_dependencies st) @ filter (parses fs) new1"
    "map_keys (st_exports st1) = map_keys (st_exports st) @ filter (parses fs) new1"
    "\<forall>g \<in> set new1. complete env fs g st1"
    by (auto simp add: ext_def)
  from 2 obtain new2 where n2:
    "st_processedFiles st2 = st_processedFiles st1 @ new2"
    "map_keys (st_dependencies st2) = map_keys (st_dependencies st1) @ filter (parses fs) new2"
    "map_keys (st_exports st2) = map_keys (st_exports st1) @ filter (parses fs) new2"
    "\<forall>g \<in> set new2. complete env fs g st2"
    by (auto simp add: ext_def)
  have d1: "distinct (st_processedFiles st1)" and d2: "distinct (st_processedFiles st2)"
    using 1 2 by (auto simp add: ext_def)
  have f1: "\<And>g. g \<in> set (st_processedFiles st) \<Longrightarrow> g \<notin> A \<Longrightarrow>
      map_get (st_dependencies st1) g = map_get (st_dependencies st) g"
    and e1: "\<And>g. g \<in> set (st_processedFiles st) \<Longrightarrow>
      map_get (st_exports st1) g = map_get (st_exports st) g"
    using 1 by (auto simp add: ext_def)
  have f2: "\<And>g. g \<in> set (st_processedFiles st1) \<Longrightarrow> g \<notin> B \<Longrightarrow>
      map_get (st_dependencies st2) g = map_get (st_dependencies st1) g"
    and e2: "\<And>g. g \<in> set (st_processedFiles st1) \<Longrightarrow>
      map_get (st_exports st2) g = map_get (st_exports st1) g"
    using 2 by (auto simp add: ext_def)
  have c1: "complete env fs g st2" if g: "g \<in> set new1" for g
  proof (rule complete_mono)
    show "complete env fs g st1" using n1(4) g by blast
    have "g \<notin> set (st_processedFiles st)" using d1 n1(1) g by auto
    then have "g \<notin> B" using B by blast
    moreover have g1: "g \<in> set (st_processedFiles st1)" using n1(1) g by simp
    ultimately show "map_get (st_dependencies st2) g = map_get (st_dependencies st1) g"
      using f2 by blast
    show "map_get (st_exports st2) g = map_get (st_exports st1) g" using e2 g1 by blast
    show "set (st_processedFiles st1) \<subseteq> set (st_processedFiles st2)" using n2(1) by simp
  qed
  have "st_processedFiles st2 = st_processedFiles st @ (new1 @ new2)"
    using n1(1) n2(1) by simp
  moreover have "map_keys (st_dependencies st2)
      = map_keys (st_dependencies st) @ filter (parses fs) (new1 @ new2)"
    using n1(2) n2(2) by simp
  moreover have "map_keys (st_exports st2)
      = map_keys (st_exports st) @ filter (parses fs) (new1 @ new2)"
    using n1(3) n2(3) by simp
  moreover have "\<forall>g \<in> set (new1 @ new2). complete env fs g st2"
    using c1 n2(4) by auto
  ultimately have new: "\<exists>new. st_processedFiles st2 = st_processedFiles st @ new \<and>
         map_keys (st_dependencies st2)
           = map_keys (st_dependencies st) @ filter (parses fs) new \<and>
         map_keys (st_exports st2) = map_keys (st_exports st) @ filter (parses fs) new \<and>
         (\<forall>g \<in> set new. complete env fs g st2)"
    by blast
  have fr: "\<forall>g \<in> set (st_processedFiles st). g \<notin> A \<union> B \<longrightarrow>
         map_get (st_dependencies st2) g = map_get (st_dependencies st) g"
    using f1 f2 n1(1) by auto
  have er: "\<forall>g \<in> set (st_processedFiles st).
         map_get (st_exports st2) g = map_get (st_exports st) g"
    using e1 e2 n1(1) by auto
  show ?thesis
    unfolding ext_def using new d2 fr er by blast
qed

lemma ext_add_edge:
  assumes "distinct (st_processedFiles st)"
  shows "ext env fs {f} st (st\<lparr>st_dependencies := map_get_add (st_dependencies st) f p\<rparr>)"
  using assms by (simp add: ext_def map_keys_map_get_add map_get_map_get_add)

lemma ext_mark_failed:
  assumes "distinct (st_processedFiles st)" "\<not> set_has (st_processedFiles st) f"
    "readAndParse fs f = None"
  shows "ext env fs {} st (st\<lparr>st_processedFiles := set_add (st_processedFiles st) f\<rparr>)"
proof -
  have "set_add (st_processedFiles st) f = st_processedFiles st @ [f]"
    using assms(2) by (simp add: set_add_def)
  then show ?thesis
    using assms by (simp add: ext_def parses_def complete_def set_has_def)
qed

lemma build_skip:
  "set_has (st_processedFiles st) f \<Longrightarrow> buildDependencyTree env fs f st = st"
  by simp

lemma build_fail:
  "\<not> set_has (st_processedFiles st) f \<Longrightarrow> readAndParse fs f = None \<Longrightarrow>
     buildDependencyTree env fs f st
       = st\<lparr>st_processedFiles := set_add (st_processedFiles st) f\<rparr>"
  by simp

lemma build_ok:
  "\<not> set_has (st_processedFiles st) f \<Longrightarrow> readAndParse fs f = Some ast \<Longrightarrow>
   traverse f ast ([], map_set (st_exports st) f []) = (imps, ex) \<Longrightarrow>
     buildDependencyTree env fs f st
       = processImports env fs f imps
           (st\<lparr>st_processedFiles := set_add (st_processedFiles st) f,
               st_dependencies := map_set (st_dependencies st) f [],
               st_exports := ex\<rparr>)"
  by simp

lemma imports_unresolved:
  "resolveImportPath env fs f imp = None \<Longrightarrow>
     processImports env fs f (imp # rest) st = processImports env fs f rest st"
  by simp

lemma imports_empty:
  "resolveImportPath env fs f imp = Some [] \<Longrightarrow>
     processImports env fs f (imp # rest) st = processImports env fs f rest st"
  by simp

lemma imports_seen:
  "resolveImportPath env fs f imp = Some p \<Longrightarrow> p \<noteq> [] \<Longrightarrow>
   set_has (st_processedFiles st) p \<Longrightarrow>
     processImports env fs f (imp # rest) st
       = processImports env fs f rest
           (st\<lparr>st_dependencies := map_get_add (st_dependencies st) f p\<rparr>)"
  by simp

lemma imports_new:
  "resolveImportPath env fs f imp = Some p \<Longrightarrow> p \<noteq> [] \<Longrightarrow>
   \<not> set_has (st_processedFiles st) p \<Longrightarrow>
     processImports env fs f (imp # rest) st
       = processImports env fs f rest
           (buildDependencyTree env fs p
              (st\<lparr>st_dependencies := map_get_add (st_dependencies st) f p\<rparr>))"
  by simp

declare buildDependencyTree.simps [simp del] processImports.simps(2) [simp del]

lemma resolved_Cons:
  "resolved env fs f (imp # rest) =
     (case resolveImportPath env fs f imp of
        None \<Rightarrow> resolved env fs f rest
      | Some p \<Rightarrow> if p = [] then resolved env fs f rest else p # resolved env fs f rest)"
  by (simp add: resolved_def List.map_filter_simps split: option.splits)

lemma set_resolved:
  "set (resolved env fs f imps)
     = {d. d \<noteq> [] \<and> (\<exists>spec \<in> set imps. resolveImportPath env fs f spec = Some d)}"
  by (induction imps) (auto simp add: resolved_Cons resolved_def List.map_filter_simps split: option.splits)

text \<open>
  The invariant of the traversal: a call of the builder extends the state, and the loop
  over the imports of a processed file adds exactly its resolved imports.
\<close>

lemma build_ext:
  "inv0 st \<Longrightarrow>
     ext env fs {} st (buildDependencyTree env fs f st) \<and>
     f \<in> set (st_processedFiles (buildDependencyTree env fs f st))"
  "inv0 st \<Longrightarrow> f \<in> set (st_processedFiles st) \<Longrightarrow>
     ext env fs {f} st (processImports env fs f imps st) \<and>
     map_get (st_dependencies (processImports env fs f imps st)) f
       = map_option (\<lambda>s. foldl set_add s (resolved env fs f imps))
           (map_get (st_dependencies st) f) \<and>
     set (resolved env fs f imps) \<subseteq> set (st_processedFiles (processImports env fs f imps st))"
proof (induction env fs f st and env fs f imps st
        rule: buildDependencyTree_processImports.induct)
  case (1 env fs f st)
  note inv = 1(2)
  have dist: "distinct (st_processedFiles st)" using inv by (simp add: inv0_def)
  show ?case
  proof (cases "set_has (st_processedFiles st) f")
    case True
    then show ?thesis using dist by (simp add: build_skip ext_refl set_has_def)
  next
    case False
    have app: "set_add (st_processedFiles st) f = st_processedFiles st @ [f]"
      using False by (simp add: set_add_def)
    have fnew: "f \<notin> set (st_processedFiles st)" using False by (simp add: set_has_def)
    show ?thesis
    proof (cases "readAndParse fs f")
      case None
      then show ?thesis
        using ext_mark_failed[OF dist False None] False
        by (simp add: build_fail set_set_add)
    next
      case (Some ast)
      define st1 where "st1 = st\<lparr>st_processedFiles := set_add (st_processedFiles st) f\<rparr>"
      have fE: "f \<notin> set (map_keys (st_exports st))" and fD: "f \<notin> set (map_keys (st_dependencies st))"
        using inv fnew by (auto simp add: inv0_def)
      have "map_get (map_set (st_exports st1) f []) f = Some []"
        by (simp add: map_get_map_set)
      from traverse_char[OF this, of ast "[]"] obtain ex where
        tr: "traverse f ast ([], map_set (st_exports st1) f []) = (importSources ast, ex)"
        and exf: "map_get ex f = Some (foldl set_add [] (exportedNames ast))"
        and exk: "map_keys ex = map_keys (map_set (st_exports st1) f [])"
        and exg: "\<forall>g. g \<noteq> f \<longrightarrow> map_get ex g = map_get (map_set (st_exports st1) f []) g"
        by auto
      define st2 where
        "st2 = st1\<lparr>st_dependencies := map_set (st_dependencies st1) f [], st_exports := ex\<rparr>"
      let ?st' = "processImports env fs f (importSources ast) st2"
      have P2: "st_processedFiles st2 = st_processedFiles st @ [f]"
        by (simp add: st2_def st1_def app)
      have D2k: "map_keys (st_dependencies st2) = map_keys (st_dependencies st) @ [f]"
        using fD by (simp add: st2_def st1_def map_keys_map_set)
      have E2k: "map_keys (st_exports st2) = map_keys (st_exports st) @ [f]"
        using fE exk by (simp add: st2_def st1_def map_keys_map_set)
      have D2f: "map_get (st_dependencies st2) f = Some []"
        by (simp add: st2_def st1_def map_get_map_set)
      have D2g: "\<And>g. g \<noteq> f \<Longrightarrow> map_get (st_dependencies st2) g = map_get (st_dependencies st) g"
        by (simp add: st2_def st1_def map_get_map_set)
      have E2f: "map_get (st_exports st2) f = Some (foldl set_add [] (exportedNames ast))"
        using exf by (simp add: st2_def)
      have E2g: "\<And>g. g \<noteq> f \<Longrightarrow> map_get (st_exports st2) g = map_get (st_exports st) g"
        using exg by (simp add: st2_def st1_def map_get_map_set)
      have inv2: "inv0 st2"
        using inv fnew by (auto simp add: inv0_def P2 D2k E2k)
      have f2: "f \<in> set (st_processedFiles st2)" by (simp add: P2)
      have ih: "ext env fs {f} st2 ?st'"
        "map_get (st_dependencies ?st') f
           = Some (foldl set_add [] (resolved env fs f (importSources ast)))"
        "set (resolved env fs f (importSources ast)) \<subseteq> set (st_processedFiles ?st')"
        using 1(1)[OF False st1_def Some tr[symmetric], folded st2_def, OF inv2 f2] D2f
        by simp_all
      have eq: "buildDependencyTree env fs f st = ?st'"
        using build_ok[OF False Some, of "importSources ast" ex env] tr
        by (simp add: st2_def st1_def)
      from ih(1) obtain new2 where n2:
        "st_processedFiles ?st' = st_processedFiles st2 @ new2"
        "map_keys (st_dependencies ?st') = map_keys (st_dependencies st2) @ filter (parses fs) new2"
        "map_keys (st_exports ?st') = map_keys (st_exports st2) @ filter (parses fs) new2"
        "\<forall>g \<in> set new2. complete env fs g ?st'"
        by (auto simp add: ext_def)
      have d': "distinct (st_processedFiles ?st')" using ih(1) by (simp add: ext_def)
      have fr2: "\<And>g. g \<in> set (st_processedFiles st2) \<Longrightarrow> g \<noteq> f \<Longrightarrow>
          map_get (st_dependencies ?st') g = map_get (st_dependencies st2) g"
        and er2: "\<And>g. g \<in> set (st_processedFiles st2) \<Longrightarrow>
          map_get (st_exports ?st') g = map_get (st_exports st2) g"
        using ih(1) by (auto simp add: ext_def)
      have pf: "parses fs f" using Some by (simp add: parses_def)
      have cf: "complete env fs f ?st'"
        using Some ih(2,3) er2[OF f2] E2f by (simp add: complete_def)
      have a: "st_processedFiles ?st' = st_processedFiles st @ (f # new2)"
        using n2(1) P2 by simp
      have b: "map_keys (st_dependencies ?st')
          = map_keys (st_dependencies st) @ filter (parses fs) (f # new2)"
        using n2(2) D2k pf by simp
      have c: "map_keys (st_exports ?st')
          = map_keys (st_exports st) @ filter (parses fs) (f # new2)"
        using n2(3) E2k pf by simp
      have d: "\<forall>g \<in> set (f # new2). complete env fs g ?st'"
        using cf n2(4) by simp
      have new: "\<exists>new. st_processedFiles ?st' = st_processedFiles st @ new \<and>
         map_keys (st_dependencies ?st')
           = map_keys (st_dependencies st) @ filter (parses fs) new \<and>
         map_keys (st_exports ?st') = map_keys (st_exports st) @ filter (parses fs) new \<and>
         (\<forall>g \<in> set new. complete env fs g ?st')"
        using a b c d by blast
      have old: "g \<noteq> f \<and> g \<in> set (st_processedFiles st2)"
        if "g \<in> set (st_processedFiles st)" for g
        using that fnew P2 by auto
      have fr: "\<forall>g \<in> set (st_processedFiles st). g \<notin> {} \<longrightarrow>
         map_get (st_dependencies ?st') g = map_get (st_dependencies st) g"
      proof (intro ballI impI)
        fix g assume "g \<in> set (st_processedFiles st)"
        then have g: "g \<noteq> f" "g \<in> set (st_processedFiles st2)" using old by simp_all
        show "map_get (st_dependencies ?st') g = map_get (st_dependencies st) g"
          using fr2[OF g(2) g(1)] D2g[OF g(1)] by simp
      qed
      have er: "\<forall>g \<in> set (st_processedFiles st).
         map_get (st_exports ?st') g = map_get (st_exports st) g"
      proof (intro ballI)
        fix g assume "g \<in> set (st_processedFiles st)"
        then have g: "g \<noteq> f" "g \<in> set (st_processedFiles st2)" using old by simp_all
        show "map_get (st_exports ?st') g = map_get (st_exports st) g"
          using er2[OF g(2)] E2g[OF g(1)] by simp
      qed
      have "ext env fs {} st ?st'"
        unfolding ext_def using new d' fr er by blast
      moreover have "f \<in> set (st_processedFiles ?st')" using a by simp
      ultimately show ?thesis using eq by simp
    qed
  qed
next
  case (2 env fs f st)
  then show ?case
    by (cases "map_get (st_dependencies st) f")
       (simp_all add: ext_refl inv0_def resolved_def List.map_filter_simps)
next
  case (3 env fs f imp rest st)
  note inv = 3(6) and fin = 3(7)
  have dist: "distinct (st_processedFiles st)" using inv by (simp add: inv0_def)
  show ?case
  proof (cases "resolveImportPath env fs f imp")
    case None
    then show ?thesis
      using 3(1)[OF None inv fin] by (simp add: imports_unresolved resolved_Cons)
  next
    case (Some p)
    define st1 where
      "st1 = st\<lparr>st_dependencies := map_get_add (st_dependencies st) f p\<rparr>"
    have P1: "st_processedFiles st1 = st_processedFiles st" by (simp add: st1_def)
    have e1: "ext env fs {f} st st1"
      unfolding st1_def by (rule ext_add_edge[OF dist])
    have inv1: "inv0 st1" by (rule ext_inv0[OF inv e1])
    have f1: "f \<in> set (st_processedFiles st1)" using fin P1 by simp
    have D1f: "map_get (st_dependencies st1) f
        = map_option (\<lambda>s. set_add s p) (map_get (st_dependencies st) f)"
      by (simp add: st1_def map_get_map_get_add)
    have fsub: "{f} \<subseteq> set (st_processedFiles st)" using fin by simp
    show ?thesis
    proof (cases "p = []")
      case True
      then show ?thesis
        using 3(2)[OF Some True inv fin] Some by (simp add: imports_empty resolved_Cons)
    next
      case ne: False
      show ?thesis
    proof (cases "set_has (st_processedFiles st1) p")
      case True
      let ?st' = "processImports env fs f rest st1"
      have ih: "ext env fs {f} st1 ?st'"
        "map_get (st_dependencies ?st') f
           = map_option (\<lambda>s. foldl set_add s (resolved env fs f rest))
               (map_get (st_dependencies st1) f)"
        "set (resolved env fs f rest) \<subseteq> set (st_processedFiles ?st')"
        using 3(5)[OF Some ne st1_def _ inv1 f1] True by simp_all
      have eq: "processImports env fs f (imp # rest) st = ?st'"
        using imports_seen[OF Some ne, of st rest] True by (simp add: st1_def)
      have "ext env fs ({f} \<union> {f}) st ?st'"
        using ext_trans[OF e1 ih(1)] fsub P1 by simp
      then have x: "ext env fs {f} st ?st'" by simp
      have y: "map_get (st_dependencies ?st') f
          = map_option (\<lambda>s. foldl set_add s (resolved env fs f (imp # rest)))
              (map_get (st_dependencies st) f)"
        using ih(2) D1f Some ne
        by (cases "map_get (st_dependencies st) f") (simp_all add: resolved_Cons)
      have "p \<in> set (st_processedFiles ?st')"
        using True ext_processed_mono[OF ih(1)] by (auto simp add: set_has_def)
      then have z: "set (resolved env fs f (imp # rest)) \<subseteq> set (st_processedFiles ?st')"
        using ih(3) Some ne by (simp add: resolved_Cons)
      show ?thesis using x y z eq by simp
    next
      case False
      let ?st2 = "buildDependencyTree env fs p st1"
      let ?st' = "processImports env fs f rest ?st2"
      have b: "ext env fs {} st1 ?st2" "p \<in> set (st_processedFiles ?st2)"
        using 3(3)[OF Some ne st1_def False inv1] by simp_all
      have inv2: "inv0 ?st2" by (rule ext_inv0[OF inv1 b(1)])
      have f2: "f \<in> set (st_processedFiles ?st2)"
        using f1 ext_processed_mono[OF b(1)] by blast
      have ih: "ext env fs {f} ?st2 ?st'"
        "map_get (st_dependencies ?st') f
           = map_option (\<lambda>s. foldl set_add s (resolved env fs f rest))
               (map_get (st_dependencies ?st2) f)"
        "set (resolved env fs f rest) \<subseteq> set (st_processedFiles ?st')"
        using 3(4)[OF Some ne st1_def False inv2 f2] by simp_all
      have eq: "processImports env fs f (imp # rest) st = ?st'"
        using imports_new[OF Some ne, of st rest] False by (simp add: st1_def)
      have "ext env fs ({f} \<union> {}) st ?st2"
        using ext_trans[OF e1 b(1)] by simp
      then have "ext env fs (({f} \<union> {}) \<union> {f}) st ?st'"
        using ext_trans[OF _ ih(1) fsub] by blast
      then have x: "ext env fs {f} st ?st'" by simp
      have D2f: "map_get (st_dependencies ?st2) f = map_get (st_dependencies st1) f"
        using b(1) f1 by (simp add: ext_def)
      have y: "map_get (st_dependencies ?st') f
          = map_option (\<lambda>s. foldl set_add s (resolved env fs f (imp # rest)))
              (map_get (st_dependencies st) f)"
        using ih(2) D2f D1f Some ne
        by (cases "map_get (st_dependencies st) f") (simp_all add: resolved_Cons)
      have "p \<in> set (st_processedFiles ?st')"
        using b(2) ext_processed_mono[OF ih(1)] by blast
      then have z: "set (resolved env fs f (imp # rest)) \<subseteq> set (st_processedFiles ?st')"
        using ih(3) Some ne by (simp add: resolved_Cons)
      show ?thesis using x y z eq by simp
    qed
    qed
  qed
qed

lemma processed_trace:
  "\<exists>new. st_processedFiles (buildDependencyTree env fs f st) = st_processedFiles st @ new \<and>
     (distinct (st_processedFiles st) \<longrightarrow> distinct (st_processedFiles st @ new)) \<and>
     (\<not> set_has (st_processedFiles st) f \<longrightarrow> (\<exists>more. new = f # more))"
  "\<exists>new. st_processedFiles (processImports env fs f imps st) = st_processedFiles st @ new \<and>
     (distinct (st_processedFiles st) \<longrightarrow> distinct (st_processedFiles st @ new))"
proof (induction env fs f st and env fs f imps st
        rule: buildDependencyTree_processImports.induct)
  case (1 env fs f st)
  show ?case
  proof (cases "set_has (st_processedFiles st) f")
    case True
    then show ?thesis by (simp add: build_skip)
  next
    case False
    have app: "set_add (st_processedFiles st) f = st_processedFiles st @ [f]"
      using False by (simp add: set_add_def)
    have fnew: "f \<notin> set (st_processedFiles st)" using False by (simp add: set_has_def)
    show ?thesis
    proof (cases "readAndParse fs f")
      case None
      then show ?thesis using False fnew by (simp add: build_fail app)
    next
      case (Some ast)
      define st1 where "st1 = st\<lparr>st_processedFiles := set_add (st_processedFiles st) f\<rparr>"
      obtain imps ex where tr:
        "traverse f ast ([], map_set (st_exports st1) f []) = (imps, ex)"
        by (cases "traverse f ast ([], map_set (st_exports st1) f [])")
      define st2 where
        "st2 = st1\<lparr>st_dependencies := map_set (st_dependencies st1) f [], st_exports := ex\<rparr>"
      have P2: "st_processedFiles st2 = st_processedFiles st @ [f]"
        by (simp add: st2_def st1_def app)
      from 1[OF False st1_def Some tr[symmetric], folded st2_def] obtain new2 where
        n2: "st_processedFiles (processImports env fs f imps st2) = st_processedFiles st2 @ new2"
          "distinct (st_processedFiles st2) \<longrightarrow> distinct (st_processedFiles st2 @ new2)"
        by blast
      have eq: "buildDependencyTree env fs f st = processImports env fs f imps st2"
        using build_ok[OF False Some, of imps ex env] tr by (simp add: st2_def st1_def)
      have "st_processedFiles (buildDependencyTree env fs f st)
          = st_processedFiles st @ (f # new2)"
        using n2(1) P2 eq by simp
      moreover have "distinct (st_processedFiles st) \<longrightarrow>
          distinct (st_processedFiles st @ (f # new2))"
        using n2(2) P2 fnew by simp
      ultimately show ?thesis by blast
    qed
  qed
next
  case (2 env fs f st)
  then show ?case by simp
next
  case (3 env fs f imp rest st)
  show ?case
  proof (cases "resolveImportPath env fs f imp")
    case None
    then show ?thesis using 3(1)[OF None] by (simp add: imports_unresolved)
  next
    case (Some p)
    define st1 where
      "st1 = st\<lparr>st_dependencies := map_get_add (st_dependencies st) f p\<rparr>"
    have P1: "st_processedFiles st1 = st_processedFiles st" by (simp add: st1_def)
    show ?thesis
    proof (cases "p = []")
      case True
      then show ?thesis using 3(2)[OF Some True] Some by (simp add: imports_empty)
    next
      case ne: False
      show ?thesis
    proof (cases "set_has (st_processedFiles st1) p")
      case True
      have eq: "processImports env fs f (imp # rest) st = processImports env fs f rest st1"
        using imports_seen[OF Some ne, of st rest] True by (simp add: st1_def)
      show ?thesis using 3(5)[OF Some ne st1_def] True eq P1 by simp
    next
      case False
      let ?st2 = "buildDependencyTree env fs p st1"
      from 3(3)[OF Some ne st1_def False] obtain new1 where
        n1: "st_processedFiles ?st2 = st_processedFiles st1 @ new1"
          "distinct (st_processedFiles st1) \<longrightarrow> distinct (st_processedFiles st1 @ new1)"
        by blast
      from 3(4)[OF Some ne st1_def False] obtain new2 where
        n2: "st_processedFiles (processImports env fs f rest ?st2)
            = st_processedFiles ?st2 @ new2"
          "distinct (st_processedFiles ?st2) \<longrightarrow> distinct (st_processedFiles ?st2 @ new2)"
        by blast
      have eq: "processImports env fs f (imp # rest) st = processImports env fs f rest ?st2"
        using imports_new[OF Some ne, of st rest] False by (simp add: st1_def)
      have "st_processedFiles (processImports env fs f (imp # rest) st)
          = st_processedFiles st @ (new1 @ new2)"
        using n1(1) n2(1) eq P1 by simp
      moreover have "distinct (st_processedFiles st) \<longrightarrow>
          distinct (st_processedFiles st @ (new1 @ new2))"
        using n1 n2(2) P1 by simp
      ultimately show ?thesis by blast
    qed
    qed
  qed
qed

lemma inv0_empty: "inv0 empty_state"
  by (simp add: inv0_def empty_state_def map_keys_def)

lemma build_from_empty:
  fixes env fs entryFile
  defines "st' \<equiv> buildDependencyTree env fs entryFile empty_state"
  shows "map_keys (st_dependencies st') = filter (parses fs) (st_processedFiles st')"
    and "map_keys (st_exports st') = filter (parses fs) (st_processedFiles st')"
    and "distinct (st_processedFiles st')"
    and "entryFile \<in> set (st_processedFiles st')"
    and "\<forall>g \<in> set (st_processedFiles st'). complete env fs g st'"
proof -
  have e: "ext env fs {} empty_state st'" and m: "entryFile \<in> set (st_processedFiles st')"
    using build_ext(1)[OF inv0_empty, of env fs entryFile] by (simp_all add: st'_def)
  show "entryFile \<in> set (st_processedFiles st')" by (rule m)
  show "distinct (st_processedFiles st')" using e by (simp add: ext_def)
  from e obtain new where n:
    "st_processedFiles st' = st_processedFiles empty_state @ new"
    "map_keys (st_dependencies st')
       = map_keys (st_dependencies empty_state) @ filter (parses fs) new"
    "map_keys (st_exports st') = map_keys (st_exports empty_state) @ filter (parses fs) new"
    "\<forall>g \<in> set new. complete env fs g st'"
    by (auto simp add: ext_def)
  have new: "new = st_processedFiles st'" using n(1) by (simp add: empty_state_def)
  show "map_keys (st_dependencies st') = filter (parses fs) (st_processedFiles st')"
    using n(2) new by (simp add: empty_state_def map_keys_def)
  show "map_keys (st_exports st') = filter (parses fs) (st_processedFiles st')"
    using n(3) new by (simp add: empty_state_def map_keys_def)
  show "\<forall>g \<in> set (st_processedFiles st'). complete env fs g st'"
    using n(4) new by simp
qed

lemmas build_eval =
  buildDependencyTree.simps processImports.simps(2) resolveImportPath_def stat_isFile_def
  readAndParse_def traverse_def posix_def posix_resolve_def posix_dirname_def
  posix_absolute_def startsWith_def extensions_def map_get_add_def map_get_def
  set_has_def set_add_def empty_state_def project_def

lemma project_build:
  "buildDependencyTree (posix ''/p'') project ''/p/src/index.ts'' empty_state =
     \<lparr>st_dependencies =
        [(''/p/src/index.ts'', [''/p/src/a.ts'', ''/p/src/b.ts'', ''/p/src/util/index.ts'']),
         (''/p/src/a.ts'', [''/p/src/index.ts'']),
         (''/p/src/util/index.ts'', [''/p/src/a.ts''])],
      st_exports =
        [(''/p/src/index.ts'', []), (''/p/src/a.ts'', [''foo'', ''default'']),
         (''/p/src/util/index.ts'', [''helper''])],
      st_processedFiles =
        [''/p/src/index.ts'', ''/p/src/a.ts'', ''/p/src/b.ts'', ''/p/src/util/index.ts'']\<rparr>"
  by (simp add: build_eval)

lemma mutual_build:
  "buildDependencyTree (posix ''/p'') mutual ''/p/a.ts'' empty_state =
     \<lparr>st_dependencies = [(''/p/a.ts'', [''/p/b.ts'']), (''/p/b.ts'', [''/p/a.ts''])],
      st_exports = [(''/p/a.ts'', []), (''/p/b.ts'', [])],
      st_processedFiles = [''/p/a.ts'', ''/p/b.ts'']\<rparr>"
  by (simp add: build_eval mutual_def)

lemma two_dependents_build:
  "buildDependencyTree (posix ''/p'') two_dependents ''/p/main.ts'' empty_state =
     \<lparr>st_dependencies =
        [(''/p/main.ts'', [''/p/x.ts'', ''/p/y.ts'']), (''/p/x.ts'', [''/p/lib.ts'']),
         (''/p/lib.ts'', []), (''/p/y.ts'', [''/p/lib.ts''])],
      st_exports =
        [(''/p/main.ts'', []), (''/p/x.ts'', []), (''/p/lib.ts'', [''default'']),
         (''/p/y.ts'', [])],
      st_processedFiles = [''/p/main.ts'', ''/p/x.ts'', ''/p/lib.ts'', ''/p/y.ts'']\<rparr>"
  by (simp add: build_eval two_dependents_def)

lemma diamond_build:
  "buildDependencyTree (posix ''/p'') diamond ''/p/e.ts'' empty_state =
     \<lparr>st_dependencies =
        [(''/p/e.ts'', [''/p/g.ts'', ''/p/f.ts'']), (''/p/g.ts'', [''/p/a.ts'']),
         (''/p/a.ts'', []), (''/p/f.ts'', [''/p/a.ts'', ''/p/g.ts''])],
      st_exports =
        [(''/p/e.ts'', []), (''/p/g.ts'', []), (''/p/a.ts'', [''default'']), (''/p/f.ts'', [])],
      st_processedFiles = [''/p/e.ts'', ''/p/g.ts'', ''/p/a.ts'', ''/p/f.ts'']\<rparr>"
  by (simp add: build_eval diamond_def)

section \<open>The claims\<close>

text \<open>
  Claim C1 says that no file occurs twice in the impact tree, the root included. The
  visited set starts empty and the changed file is never entered into it, so on an import
  cycle through the changed file the walk comes back to it. With \<open>/p/a.ts\<close> and
  \<open>/p/b.ts\<close> importing each other, the tree for a change of \<open>/p/a.ts\<close> is \<open>/p/a.ts\<close>,
  \<open>/p/b.ts\<close>, \<open>/p/a.ts\<close>. Below the root no file repeats (\<open>visited_trace\<close>,
  \<open>visited_distinct\<close>).
\<close>

theorem C1_cycle_repeats_root:
  "analyzeFileChanges (posix ''/p'') mutual ''/p/a.ts'' ''/p/a.ts'' ''modify'' None =
     DependencyNode ''/p/a.ts'' ''modify'' None
       [DependencyNode ''/p/b.ts'' ''affected'' (Some ''File was modified'')
          [DependencyNode ''/p/a.ts'' ''affected'' (Some ''File was modified'') []]] \<and>
   \<not> distinct (map nodeFile (nodes
      (analyzeFileChanges (posix ''/p'') mutual ''/p/a.ts'' ''/p/a.ts'' ''modify'' None)))"
  by (simp add: analyzeFileChanges_def mutual_build impact_eval)

text \<open>
  Claim C2. The root of the impact tree has the changed file, the change kind passed in
  and no reason; every other node has the kind \<open>affected\<close> and a non-empty reason.
\<close>

theorem C2_root_and_descendants:
  "nodeFile (fst (analyzeImpact changedFile dependencies exports changeType modifiedExports
       visited)) = changedFile \<and>
   nodeChangeType (fst (analyzeImpact changedFile dependencies exports changeType modifiedExports
       visited)) = changeType \<and>
   nodeReason (fst (analyzeImpact changedFile dependencies exports changeType modifiedExports
       visited)) = None \<and>
   (\<forall>d \<in> set (descendants (fst (analyzeImpact changedFile dependencies exports changeType
          modifiedExports visited))).
      nodeChangeType d = ''affected'' \<and> (\<exists>r. nodeReason d = Some r \<and> r \<noteq> []))"
  using non_root_nodes(1)[of changedFile dependencies exports changeType modifiedExports visited]
  by (auto simp add: analyzeImpact_root list_all_iff truthy_iff)

text \<open>The end-to-end example of the specification: \<open>/index\<close> imports \<open>/a\<close> and \<open>/b\<close>.\<close>

theorem C2_witness:
  "nodeFile (fst (analyzeImpact ''/a'' [(''/index'', [''/a'', ''/b'']), (''/a'', []), (''/b'', [])]
       [(''/index'', []), (''/a'', [''foo'']), (''/b'', [])] ''modify'' [''foo''] [])) = ''/a'' \<and>
   descendants (fst (analyzeImpact ''/a'' [(''/index'', [''/a'', ''/b'']), (''/a'', []), (''/b'', [])]
       [(''/index'', []), (''/a'', [''foo'']), (''/b'', [])] ''modify'' [''foo''] []))
     = [DependencyNode ''/index'' ''affected'' (Some ''Modified exports: foo'') []] \<and>
   nodeChangeType (DependencyNode ''/index'' ''affected'' (Some ''Modified exports: foo'') [])
     = ''affected''"
  using C2_root_and_descendants [of "''/a''"
      "[(''/index'', [''/a'', ''/b'']), (''/a'', []), (''/b'', [])]"
      "[(''/index'', []), (''/a'', [''foo'']), (''/b'', [])]" "''modify''" "[''foo'']" "[]"]
  by (simp add: impact_eval)

text \<open>
  Claim C3, with the strings the code returns. For the change kind \<open>modify\<close> the reason
  policy yields \<open>Modified exports: \<close> followed by the supplied names joined by a comma and
  a space, in the order supplied, when at least one supplied name is among the recorded
  exports of the changed file, and \<open>File was modified\<close> otherwise.
\<close>

theorem C3_modify_reason:
  "determineImpactReason changedFile dependentFile ''modify'' modifiedExports exports =
     Some (if \<exists>s. map_get exports changedFile = Some s \<and> set modifiedExports \<inter> set s \<noteq> {}
           then ''Modified exports: '' @ js_join '', '' modifiedExports
           else ''File was modified'')"
proof (cases "map_get exports changedFile")
  case None
  then show ?thesis by (simp add: determineImpactReason_def list_ex_iff)
next
  case (Some s)
  have "list_ex (set_has s) modifiedExports \<longleftrightarrow> set modifiedExports \<inter> set s \<noteq> {}"
    by (auto simp add: list_ex_iff set_has_def)
  moreover have "set modifiedExports \<inter> set s \<noteq> {} \<Longrightarrow> modifiedExports \<noteq> []"
    by auto
  ultimately show ?thesis using Some
    by (auto simp add: determineImpactReason_def)
qed

theorem C3_witness:
  "determineImpactReason ''/a'' ''/index'' ''modify'' [''foo'', ''bar''] [(''/a'', [''foo''])]
     = Some ''Modified exports: foo, bar'' \<and>
   determineImpactReason ''/a'' ''/index'' ''modify'' [] [(''/a'', [''foo''])]
     = Some ''File was modified''"
  using C3_modify_reason [of "''/a''" "''/index''" "[''foo'', ''bar'']" "[(''/a'', [''foo''])]"]
    C3_modify_reason [of "''/a''" "''/index''" "[]" "[(''/a'', [''foo''])]"]
  by (simp add: map_get_def)

text \<open>
  The strings of the claim are not the code's: the code capitalises both reasons and
  separates the names by a comma and a space.
\<close>

theorem C3_counterexample:
  "determineImpactReason ''/a'' ''/index'' ''modify'' [''foo'', ''bar''] [(''/a'', [''foo''])]
     \<noteq> Some ''modified exports: foo,bar'' \<and>
   determineImpactReason ''/a'' ''/index'' ''modify'' [''foo'', ''bar''] [(''/a'', [''foo''])]
     \<noteq> Some ''modified exports: foo, bar'' \<and>
   determineImpactReason ''/a'' ''/index'' ''modify'' [] [(''/a'', [''foo''])]
     \<noteq> Some ''file was modified''"
  by (simp add: determineImpactReason_def map_get_def set_has_def)

text \<open>
  Claim C4, for the change kind \<open>delete\<close>, whatever the modified export names and the
  export table. Every direct dependent of the changed file that is not yet visited has
  exactly one node below the root. Either that node is a child of the root and carries the
  reason \<open>File was deleted\<close>; or it is a child of the node of another affected file that the
  dependent imports, through whose branch it was reached first, and carries the reason
  \<open>File was modified\<close>. Every child of the root is a direct dependent and carries the reason
  \<open>File was deleted\<close>.
\<close>

theorem C4_delete_dependents:
  assumes "(f, deps) \<in> set dependencies" and "set_has deps changedFile"
    and "\<not> set_has visited f"
  shows "(\<exists>n. filter (\<lambda>m. nodeFile m = f)
             (descendants (fst (analyzeImpact changedFile dependencies exports ''delete''
                modifiedExports visited))) = [n] \<and>
           ((n \<in> set (nodeChildren (fst (analyzeImpact changedFile dependencies exports
                  ''delete'' modifiedExports visited))) \<and>
             nodeReason n = Some ''File was deleted'') \<or>
            (n \<notin> set (nodeChildren (fst (analyzeImpact changedFile dependencies exports
                  ''delete'' modifiedExports visited))) \<and>
             nodeReason n = Some ''File was modified'' \<and>
             (\<exists>p \<in> set (descendants (fst (analyzeImpact changedFile dependencies exports
                  ''delete'' modifiedExports visited))).
                n \<in> set (nodeChildren p) \<and>
                (\<exists>deps'. (f, deps') \<in> set dependencies \<and> set_has deps' (nodeFile p)))))) \<and>
         (\<forall>c \<in> set (nodeChildren (fst (analyzeImpact changedFile dependencies exports
                ''delete'' modifiedExports visited))).
            nodeReason c = Some ''File was deleted'' \<and>
            (\<exists>deps'. (nodeFile c, deps') \<in> set dependencies \<and> set_has deps' changedFile))"
proof -
  let ?R = "fst (analyzeImpact changedFile dependencies exports ''delete'' modifiedExports
    visited)"
  have children: "\<forall>c \<in> set (nodeChildren ?R).
      nodeReason c = Some ''File was deleted'' \<and>
      (\<exists>deps'. (nodeFile c, deps') \<in> set dependencies \<and> set_has deps' changedFile)"
    using delete_children by blast
  obtain n where n: "n \<in> set (descendants ?R)" "nodeFile n = f"
    using dependent_in_tree[OF assms, of exports "''delete''" modifiedExports] by auto
  have "distinct (map nodeFile (descendants ?R))"
    using fresh_files(1)[of changedFile dependencies exports "''delete''" modifiedExports
        visited] by simp
  then have once: "filter (\<lambda>m. nodeFile m = f) (descendants ?R) = [n]"
    using filter_unique[of nodeFile "descendants ?R" n] n by simp
  have "(n \<in> set (nodeChildren ?R) \<and> nodeReason n = Some ''File was deleted'') \<or>
        (n \<notin> set (nodeChildren ?R) \<and> nodeReason n = Some ''File was modified'' \<and>
         (\<exists>p \<in> set (descendants ?R). n \<in> set (nodeChildren p) \<and>
            (\<exists>deps'. (f, deps') \<in> set dependencies \<and> set_has deps' (nodeFile p))))"
  proof (cases "n \<in> set (nodeChildren ?R)")
    case True
    then show ?thesis using children by blast
  next
    case False
    obtain p where p: "p \<in> set (nodes ?R)" "n \<in> set (nodeChildren p)"
      using descendants_parent[OF n(1)] by blast
    have "p \<noteq> ?R" using False p(2) by blast
    then have pd: "p \<in> set (descendants ?R)" using p(1) by (simp add: nodes_unfold[of ?R])
    have "list_all (\<lambda>p. \<forall>c \<in> set (nodeChildren p).
        \<exists>deps. (nodeFile c, deps) \<in> set dependencies \<and> set_has deps (nodeFile p))
      (nodes ?R)"
      by (rule tree_edges(1))
    then have edge: "\<exists>deps'. (f, deps') \<in> set dependencies \<and> set_has deps' (nodeFile p)"
      using p n(2) by (auto simp add: list_all_iff)
    from pd obtain c where c: "c \<in> set (nodeChildren ?R)" "p \<in> set (nodes c)"
      by (auto simp add: descendants_def)
    have "n \<in> set (descendants c)" by (rule child_in_descendants[OF c(2) p(2)])
    then have "nodeReason n = Some ''File was modified''"
      using deeper_reason[OF c(1)] by blast
    then show ?thesis using False pd p(2) edge by blast
  qed
  then show ?thesis using once children by blast
qed

text \<open>
  In the project \<open>diamond\<close> both \<open>/p/g.ts\<close> and \<open>/p/f.ts\<close> import the deleted
  \<open>/p/a.ts\<close>, and \<open>/p/f.ts\<close> imports \<open>/p/g.ts\<close> as well.
\<close>

theorem C4_witness:
  "st_dependencies (buildDependencyTree (posix ''/p'') diamond ''/p/e.ts'' empty_state)
     = [(''/p/e.ts'', [''/p/g.ts'', ''/p/f.ts'']), (''/p/g.ts'', [''/p/a.ts'']),
        (''/p/a.ts'', []), (''/p/f.ts'', [''/p/a.ts'', ''/p/g.ts''])] \<and>
   (''/p/f.ts'', [''/p/a.ts'', ''/p/g.ts''])
     \<in> set (st_dependencies
          (buildDependencyTree (posix ''/p'') diamond ''/p/e.ts'' empty_state)) \<and>
   set_has [''/p/a.ts'', ''/p/g.ts''] ''/p/a.ts'' \<and> \<not> set_has [] ''/p/f.ts'' \<and>
   analyzeFileChanges (posix ''/p'') diamond ''/p/e.ts'' ''/p/a.ts'' ''delete'' None
     = DependencyNode ''/p/a.ts'' ''delete'' None
         [DependencyNode ''/p/g.ts'' ''affected'' (Some ''File was deleted'')
            [DependencyNode ''/p/e.ts'' ''affected'' (Some ''File was modified'') [],
             DependencyNode ''/p/f.ts'' ''affected'' (Some ''File was modified'') []]] \<and>
   filter (\<lambda>m. nodeFile m = ''/p/f.ts'')
     (descendants (analyzeFileChanges (posix ''/p'') diamond ''/p/e.ts'' ''/p/a.ts''
        ''delete'' None))
     = [DependencyNode ''/p/f.ts'' ''affected'' (Some ''File was modified'') []] \<and>
   filter (\<lambda>m. nodeFile m = ''/p/g.ts'')
     (descendants (analyzeFileChanges (posix ''/p'') diamond ''/p/e.ts'' ''/p/a.ts''
        ''delete'' None))
     = [DependencyNode ''/p/g.ts'' ''affected'' (Some ''File was deleted'')
          [DependencyNode ''/p/e.ts'' ''affected'' (Some ''File was modified'') [],
           DependencyNode ''/p/f.ts'' ''affected'' (Some ''File was modified'') []]]"
  using C4_delete_dependents [where f = "''/p/f.ts''" and deps = "[''/p/a.ts'', ''/p/g.ts'']"
      and changedFile = "''/p/a.ts''" and visited = "[]"
      and exports = "[(''/p/e.ts'', []), (''/p/g.ts'', []), (''/p/a.ts'', [''default'']),
        (''/p/f.ts'', [])]"
      and modifiedExports = "[]"
      and dependencies = "[(''/p/e.ts'', [''/p/g.ts'', ''/p/f.ts'']), (''/p/g.ts'', [''/p/a.ts'']),
        (''/p/a.ts'', []), (''/p/f.ts'', [''/p/a.ts'', ''/p/g.ts''])]"]
  by (simp add: analyzeFileChanges_def diamond_build impact_eval)

text \<open>
  The claim as stated fails there: the direct dependent \<open>/p/f.ts\<close> is reported under
  \<open>/p/g.ts\<close> with the reason \<open>File was modified\<close>, and the reason of \<open>/p/g.ts\<close> is
  capitalised.
\<close>

theorem C4_counterexample:
  "analyzeFileChanges (posix ''/p'') diamond ''/p/e.ts'' ''/p/a.ts'' ''delete'' None
     = DependencyNode ''/p/a.ts'' ''delete'' None
         [DependencyNode ''/p/g.ts'' ''affected'' (Some ''File was deleted'')
            [DependencyNode ''/p/e.ts'' ''affected'' (Some ''File was modified'') [],
             DependencyNode ''/p/f.ts'' ''affected'' (Some ''File was modified'') []]] \<and>
   map_get (st_dependencies (buildDependencyTree (posix ''/p'') diamond ''/p/e.ts'' empty_state))
       ''/p/f.ts'' = Some [''/p/a.ts'', ''/p/g.ts''] \<and>
   set_has [''/p/a.ts'', ''/p/g.ts''] ''/p/a.ts'' \<and>
   nodeReason (DependencyNode ''/p/f.ts'' ''affected'' (Some ''File was modified'') [])
     \<noteq> Some ''file was deleted'' \<and>
   nodeReason (DependencyNode ''/p/g.ts'' ''affected'' (Some ''File was deleted'')
       [DependencyNode ''/p/e.ts'' ''affected'' (Some ''File was modified'') [],
        DependencyNode ''/p/f.ts'' ''affected'' (Some ''File was modified'') []])
     \<noteq> Some ''file was deleted''"
  by (simp add: analyzeFileChanges_def diamond_build impact_eval)

text \<open>
  Claim C5. Every node at depth two or more carries the reason \<open>File was modified\<close>,
  whatever the change kind and the modified export names at the root.
\<close>

theorem C5_deeper_reason:
  "\<forall>c \<in> set (nodeChildren (fst (analyzeImpact changedFile dependencies exports changeType
        modifiedExports visited))).
     \<forall>d \<in> set (descendants c). nodeReason d = Some ''File was modified''"
proof (intro ballI)
  fix c d
  assume c: "c \<in> set (nodeChildren (fst (analyzeImpact changedFile dependencies exports
        changeType modifiedExports visited)))"
    and d: "d \<in> set (descendants c)"
  from c obtain f v' where
    "c = set_reason (fst (analyzeImpact f dependencies exports ''affected'' modifiedExports v'))
           (determineImpactReason changedFile f changeType modifiedExports exports)"
    using children_shape[of c changedFile dependencies exports changeType modifiedExports
        dependencies visited]
    by (auto simp add: analyzeImpact_root)
  then have "d \<in> set (descendants
      (fst (analyzeImpact f dependencies exports ''affected'' modifiedExports v')))"
    using d by simp
  then show "nodeReason d = Some ''File was modified''"
    using affected_nodes(1)[OF refl, of f dependencies exports modifiedExports v']
    by (simp add: list_all_iff)
qed

theorem C5_witness:
  "nodeChildren (fst (analyzeImpact ''/a''
       [(''/g'', [''/a'']), (''/f'', [''/a'', ''/g'']), (''/a'', [])] [] ''delete'' [] []))
     = [DependencyNode ''/g'' ''affected'' (Some ''File was deleted'')
          [DependencyNode ''/f'' ''affected'' (Some ''File was modified'') []]] \<and>
   descendants (DependencyNode ''/g'' ''affected'' (Some ''File was deleted'')
          [DependencyNode ''/f'' ''affected'' (Some ''File was modified'') []])
     = [DependencyNode ''/f'' ''affected'' (Some ''File was modified'') []]"
  using C5_deeper_reason [of "''/a''" "[(''/g'', [''/a'']), (''/f'', [''/a'', ''/g'']), (''/a'', [])]"
      "[]" "''delete''" "[]" "[]"]
  by (simp add: impact_eval)

text \<open>
  Claim C6. Both traversals terminate on every input, cyclic imports included: every
  argument is in the domain of the function, the accessible part of its recursion relation
  (the measure counts the files not yet in the visited set). Each set only grows, by
  appending. A call of the builder on a file not yet processed appends that file first, and
  the builder recurses only into such files. The impact-time set grows by exactly the files
  of the nodes below the root, one for each recursive call, and stays free of repetitions.
\<close>

theorem C6_termination_and_growth:
  "buildDependencyTree_processImports_dom (Inl (env, fs, filePath, st)) \<and>
   analyzeImpact_scanEntries_dom
     (Inl (changedFile, dependencies, exports, changeType, modifiedExports, visited)) \<and>
   (\<exists>new. st_processedFiles (buildDependencyTree env fs filePath st)
            = st_processedFiles st @ new \<and>
          (\<not> set_has (st_processedFiles st) filePath \<longrightarrow> (\<exists>more. new = filePath # more)) \<and>
          (distinct (st_processedFiles st) \<longrightarrow> distinct (st_processedFiles st @ new))) \<and>
   snd (analyzeImpact changedFile dependencies exports changeType modifiedExports visited)
     = visited @ map nodeFile (descendants
         (fst (analyzeImpact changedFile dependencies exports changeType modifiedExports visited))) \<and>
   (distinct visited \<longrightarrow>
      distinct (snd (analyzeImpact changedFile dependencies exports changeType modifiedExports
        visited)))"
proof -
  have "buildDependencyTree_processImports_dom (Inl (env, fs, filePath, st))"
    using buildDependencyTree_total by simp
  moreover have "analyzeImpact_scanEntries_dom
     (Inl (changedFile, dependencies, exports, changeType, modifiedExports, visited))"
    using analyzeImpact_total by simp
  ultimately show ?thesis
    using processed_trace(1)[of env fs filePath st]
      visited_trace(1)[of changedFile dependencies exports changeType modifiedExports visited]
      visited_distinct(1)[of visited changedFile dependencies exports changeType modifiedExports]
    by blast
qed

text \<open>
  Two files importing each other: both traversals return.
\<close>

theorem C6_witness:
  "buildDependencyTree_processImports_dom (Inl (posix ''/p'', mutual, ''/p/a.ts'', empty_state)) \<and>
   analyzeImpact_scanEntries_dom
     (Inl (''/p/a.ts'', [(''/p/a.ts'', [''/p/b.ts'']), (''/p/b.ts'', [''/p/a.ts''])],
           [(''/p/a.ts'', []), (''/p/b.ts'', [])], ''modify'', [], [])) \<and>
   st_processedFiles (buildDependencyTree (posix ''/p'') mutual ''/p/a.ts'' empty_state)
     = st_processedFiles empty_state @ [''/p/a.ts'', ''/p/b.ts''] \<and>
   \<not> set_has (st_processedFiles empty_state) ''/p/a.ts'' \<and>
   analyzeImpact ''/p/a.ts'' [(''/p/a.ts'', [''/p/b.ts'']), (''/p/b.ts'', [''/p/a.ts''])]
       [(''/p/a.ts'', []), (''/p/b.ts'', [])] ''modify'' [] []
     = (DependencyNode ''/p/a.ts'' ''modify'' None
          [DependencyNode ''/p/b.ts'' ''affected'' (Some ''File was modified'')
             [DependencyNode ''/p/a.ts'' ''affected'' (Some ''File was modified'') []]],
        [''/p/b.ts'', ''/p/a.ts''])"
  using C6_termination_and_growth [of "posix ''/p''" mutual "''/p/a.ts''" empty_state "''/p/a.ts''"
      "[(''/p/a.ts'', [''/p/b.ts'']), (''/p/b.ts'', [''/p/a.ts''])]"
      "[(''/p/a.ts'', []), (''/p/b.ts'', [])]" "''modify''" "[]" "[]"]
  by (simp add: mutual_build impact_eval) (simp add: empty_state_def)

text \<open>
  Claim C7. The resolver computes what the specification describes: nothing for a bare
  specifier; otherwise the first regular file among the literal path, the path with each
  extension of \<open>extensions\<close>, and the index file with each extension, in that order.
\<close>

theorem C7_resolver_probe_order:
  "resolveImportPath env fs currentFile rawSpecifier = resolve_spec env fs currentFile rawSpecifier"
proof (cases "is_bare rawSpecifier")
  case True
  then show ?thesis by (simp add: resolveImportPath_def resolve_spec_def is_bare_def)
next
  case False
  let ?p = "rewrite_specifier env currentFile rawSpecifier"
  have "resolveImportPath env fs currentFile rawSpecifier =
      (if stat_isFile fs ?p then Some ?p
       else case probeExtensions fs ?p extensions of
              Some pathWithExt \<Rightarrow> Some pathWithExt
            | None \<Rightarrow> probeIndex env fs ?p extensions)"
    using False unfolding resolveImportPath_def Let_def rewrite_specifier_def is_bare_def
    by auto
  also have "\<dots> = find (stat_isFile fs) (candidates env ?p)"
    by (simp add: candidates_def find_append_case probeExtensions_find probeIndex_find
        cong: option.case_cong)
  finally show ?thesis using False by (simp add: resolve_spec_def)
qed

theorem C7_witness:
  "resolveImportPath (posix ''/p'') project ''/p/src/index.ts'' ''@/util''
     = Some ''/p/src/util/index.ts'' \<and>
   resolveImportPath (posix ''/p'') project ''/p/src/index.ts'' ''./a'' = Some ''/p/src/a.ts'' \<and>
   resolveImportPath (posix ''/p'') project ''/p/src/index.ts'' ''react'' = None \<and>
   resolveImportPath (posix ''/p'') project ''/p/src/index.ts'' ''./missing'' = None \<and>
   candidates (posix ''/p'') ''/p/src/util''
     = [''/p/src/util'', ''/p/src/util.ts'', ''/p/src/util.tsx'', ''/p/src/util.js'',
        ''/p/src/util.jsx'', ''/p/src/util/index.ts'', ''/p/src/util/index.tsx'',
        ''/p/src/util/index.js'', ''/p/src/util/index.jsx'']"
  using C7_resolver_probe_order [of "posix ''/p''" project "''/p/src/index.ts''" "''@/util''"]
  by (simp add: build_eval candidates_def)

text \<open>
  Claim C8. After a build from empty containers, a file that cannot be read or parsed has
  no entry in either map. The entry file is processed, and every processed file that parses
  has all its resolved imports as edges and all its export names, and each of its imports is
  processed in turn, whatever failed elsewhere.
\<close>

theorem C8_failure_is_local:
  assumes "st' = buildDependencyTree env fs entryFile empty_state"
  shows "(\<forall>f. readAndParse fs f = None \<longrightarrow>
            map_get (st_dependencies st') f = None \<and> map_get (st_exports st') f = None) \<and>
         entryFile \<in> set (st_processedFiles st') \<and>
         (\<forall>f \<in> set (st_processedFiles st'). \<forall>ast. readAndParse fs f = Some ast \<longrightarrow>
            map_get (st_dependencies st') f
              = Some (foldl set_add [] (resolved env fs f (importSources ast))) \<and>
            map_get (st_exports st') f = Some (foldl set_add [] (exportedNames ast)) \<and>
            set (resolved env fs f (importSources ast)) \<subseteq> set (st_processedFiles st'))"
proof -
  note b = build_from_empty[where env = env and fs = fs and entryFile = entryFile, folded assms]
  have "map_get (st_dependencies st') f = None \<and> map_get (st_exports st') f = None"
    if "readAndParse fs f = None" for f
    using that b(1,2) by (simp add: map_get_None_iff parses_def)
  moreover have "map_get (st_dependencies st') f
              = Some (foldl set_add [] (resolved env fs f (importSources ast))) \<and>
            map_get (st_exports st') f = Some (foldl set_add [] (exportedNames ast)) \<and>
            set (resolved env fs f (importSources ast)) \<subseteq> set (st_processedFiles st')"
    if "f \<in> set (st_processedFiles st')" "readAndParse fs f = Some ast" for f ast
  proof -
    have "complete env fs f st'" using that(1) b(5) by blast
    then show ?thesis using that(2) by (simp add: complete_def)
  qed
  ultimately show ?thesis using b(4) by blast
qed

text \<open>
  In the example project \<open>/p/src/b.ts\<close> is malformed; \<open>/p/src/util/index.ts\<close>, imported
  after it, still gets its edge and its export.
\<close>

theorem C8_witness:
  "readAndParse project ''/p/src/b.ts'' = None \<and>
   buildDependencyTree (posix ''/p'') project ''/p/src/index.ts'' empty_state =
     \<lparr>st_dependencies =
        [(''/p/src/index.ts'', [''/p/src/a.ts'', ''/p/src/b.ts'', ''/p/src/util/index.ts'']),
         (''/p/src/a.ts'', [''/p/src/index.ts'']),
         (''/p/src/util/index.ts'', [''/p/src/a.ts''])],
      st_exports =
        [(''/p/src/index.ts'', []), (''/p/src/a.ts'', [''foo'', ''default'']),
         (''/p/src/util/index.ts'', [''helper''])],
      st_processedFiles =
        [''/p/src/index.ts'', ''/p/src/a.ts'', ''/p/src/b.ts'', ''/p/src/util/index.ts'']\<rparr> \<and>
   readAndParse project ''/p/src/util/index.ts''
     = Some [ImportDeclaration ''../a'',
             ExportNamedDeclaration (Some (OtherDeclaration (Some ''helper'')))]"
  using C8_failure_is_local [OF refl, where env = "posix ''/p''" and fs = project
      and entryFile = "''/p/src/index.ts''"]
  by (simp add: project_build) (simp add: readAndParse_def project_def)

text \<open>
  Claim C9. After a build from empty containers, every edge ends at a regular file and is
  the resolution of a specifier of the importing file that is not bare.
\<close>

theorem C9_edges_resolved:
  assumes "st' = buildDependencyTree env fs entryFile empty_state"
    and "(f, ds) \<in> set (st_dependencies st')" and "d \<in> set ds"
  shows "stat_isFile fs d \<and>
         (\<exists>ast spec. readAndParse fs f = Some ast \<and> spec \<in> set (importSources ast) \<and>
            \<not> is_bare spec \<and> resolveImportPath env fs f spec = Some d)"
proof -
  note b = build_from_empty[where env = env and fs = fs and entryFile = entryFile,
      folded assms(1)]
  have dk: "distinct (map_keys (st_dependencies st'))" using b(1,3) by simp
  have get: "map_get (st_dependencies st') f = Some ds"
    using map_get_of_entry[OF dk assms(2)] .
  have "f \<in> set (map_keys (st_dependencies st'))"
    using assms(2) by (force simp add: map_keys_def)
  then have fp: "f \<in> set (st_processedFiles st')" "parses fs f" using b(1) by simp_all
  then obtain ast where ast: "readAndParse fs f = Some ast" by (auto simp add: parses_def)
  have "complete env fs f st'" using b(5) fp(1) by blast
  then have "ds = foldl set_add [] (resolved env fs f (importSources ast))"
    using ast get by (simp add: complete_def)
  then have "d \<in> set (resolved env fs f (importSources ast))"
    using assms(3) by (simp add: set_foldl_set_add)
  then obtain spec where spec: "spec \<in> set (importSources ast)"
      "resolveImportPath env fs f spec = Some d"
    by (auto simp add: set_resolved)
  show ?thesis using ast spec resolve_isFile[OF spec(2)] by blast
qed

theorem C9_witness:
  "(''/p/src/index.ts'', [''/p/src/a.ts'', ''/p/src/b.ts'', ''/p/src/util/index.ts''])
     \<in> set (st_dependencies
          (buildDependencyTree (posix ''/p'') project ''/p/src/index.ts'' empty_state)) \<and>
   ''/p/src/util/index.ts'' \<in> set [''/p/src/a.ts'', ''/p/src/b.ts'', ''/p/src/util/index.ts''] \<and>
   stat_isFile project ''/p/src/util/index.ts'' \<and>
   resolveImportPath (posix ''/p'') project ''/p/src/index.ts'' ''@/util''
     = Some ''/p/src/util/index.ts'' \<and>
   resolveImportPath (posix ''/p'') project ''/p/src/index.ts'' ''react'' = None"
  using C9_edges_resolved [OF refl, where env = "posix ''/p''" and fs = project
      and entryFile = "''/p/src/index.ts''" and f = "''/p/src/index.ts''"
      and ds = "[''/p/src/a.ts'', ''/p/src/b.ts'', ''/p/src/util/index.ts'']"
      and d = "''/p/src/util/index.ts''"]
  by (simp add: project_build) (simp add: build_eval)

text \<open>
  Claim C10. The children of every node of the impact tree are in the order of the keys
  of the dependency graph, and these are the files that parse, in the order in which the
  builder first reached them.
\<close>

theorem C10_children_in_discovery_order:
  assumes "n \<in> set (nodes (analyzeFileChanges env fs entryFile changedFile changeType
      modifiedExports))"
  shows "subseq (map nodeFile (nodeChildren n))
           (map_keys (st_dependencies (buildDependencyTree env fs entryFile empty_state))) \<and>
         map_keys (st_dependencies (buildDependencyTree env fs entryFile empty_state))
           = filter (parses fs)
               (st_processedFiles (buildDependencyTree env fs entryFile empty_state))"
proof -
  let ?st = "buildDependencyTree env fs entryFile empty_state"
  let ?me = "case modifiedExports of None \<Rightarrow> [] | Some names \<Rightarrow> names"
  have "n \<in> set (nodes (fst (analyzeImpact changedFile (st_dependencies ?st) (st_exports ?st)
      changeType ?me [])))"
    using assms by (simp add: analyzeFileChanges_def Let_def)
  then have "subseq (map nodeFile (nodeChildren n)) (map fst (st_dependencies ?st))"
    using children_in_scan_order(1)[of "st_dependencies ?st" changedFile "st_exports ?st"
        changeType ?me "[]"]
    by (simp add: list_all_iff)
  then show ?thesis
    using build_from_empty(1)[where env = env and fs = fs and entryFile = entryFile]
    by (simp add: map_keys_def)
qed

text \<open>
  Two independent dependents \<open>x\<close> and \<open>y\<close> of a deleted library, discovered in this
  order.
\<close>

theorem C10_witness:
  "analyzeFileChanges (posix ''/p'') two_dependents ''/p/main.ts'' ''/p/lib.ts'' ''delete'' None
     = DependencyNode ''/p/lib.ts'' ''delete'' None
         [DependencyNode ''/p/x.ts'' ''affected'' (Some ''File was deleted'')
            [DependencyNode ''/p/main.ts'' ''affected'' (Some ''File was modified'') []],
          DependencyNode ''/p/y.ts'' ''affected'' (Some ''File was deleted'') []] \<and>
   subseq [''/p/x.ts'', ''/p/y.ts''] [''/p/main.ts'', ''/p/x.ts'', ''/p/lib.ts'', ''/p/y.ts'']"
  using C10_children_in_discovery_order [where
      n = "analyzeFileChanges (posix ''/p'') two_dependents ''/p/main.ts'' ''/p/lib.ts'' ''delete'' None"
      and env = "posix ''/p''" and fs = two_dependents and entryFile = "''/p/main.ts''"
      and changedFile = "''/p/lib.ts''" and changeType = "''delete''" and modifiedExports = None]
  by (simp add: analyzeFileChanges_def two_dependents_build impact_eval map_keys_def)
     (simp add: parses_def readAndParse_def two_dependents_def)

end
